theory Spec2Isabelle
  imports Main "HOL-Library.Multiset"
begin

section \<open>Data model\<close>

text \<open>
  Modelled from the spec: the Prisma schema of the \<^verbatim>\<open>Contact\<close> table is not among the
  sources. The fields are the ones \<^verbatim>\<open>contactService.ts\<close> reads and writes, with the types
  of the spec's data model: \<^verbatim>\<open>linkPrecedence\<close> is one of \<^verbatim>\<open>"primary"\<close> and
  \<^verbatim>\<open>"secondary"\<close>, \<^verbatim>\<open>linkedId\<close> and \<^verbatim>\<open>deletedAt\<close> may be null, timestamps are integers
  (milliseconds). The field \<^verbatim>\<open>id\<close> is called \<open>id_c\<close> here, \<open>id\<close> being HOL's identity
  function.
\<close>

datatype precedence = Primary | Secondary

record contact =
  id_c :: int
  email :: "string option"
  phoneNumber :: "string option"
  linkedId :: "int option"
  linkPrecedence :: precedence
  createdAt :: int
  updatedAt :: int
  deletedAt :: "int option"

text \<open>\<^verbatim>\<open>interface ContactResponse\<close>, with the source's spelling of the first field.\<close>

record response =
  primaryContatctId :: int
  emails :: "string list"
  phoneNumbers :: "string list"
  secondaryContactIds :: "int list"

text \<open>
  The store: the rows of the table and the next value of the autoincrement sequence of
  \<^verbatim>\<open>id\<close>. The order of the list \<open>rows\<close> has no meaning of its own: the order in which a
  query returns rows is the store's choice at each call, see \<open>returned\<close> below.
\<close>

record db =
  rows :: "contact list"
  nextId :: int

datatype error = TypeError | StoreError

section \<open>JavaScript truthiness\<close>

text \<open>\<^verbatim>\<open>email ? ... : ...\<close> on a \<^verbatim>\<open>string | null\<close>: null and the empty string are falsy.\<close>

definition truthy :: "string option \<Rightarrow> bool" where
  "truthy x = (case x of None \<Rightarrow> False | Some v \<Rightarrow> v \<noteq> [])"

section \<open>Store operations\<close>

text \<open>
  The order of a query's result. A query without \<^verbatim>\<open>orderBy\<close> returns the selected rows in
  an order the service does not control (it depends on where the database holds each row
  at that moment, which a write may change). The calls of one request are numbered from 0
  in program order, and \<open>pos k c\<close> is the place of row \<open>c\<close> at call \<open>k\<close>: the rows come
  back by ascending place. \<open>pos\<close> is a parameter of every function below and every
  theorem holds for all \<open>pos\<close>, hence for every order the store may choose.
\<close>

definition returned :: "(nat \<Rightarrow> contact \<Rightarrow> nat) \<Rightarrow> nat \<Rightarrow> contact list \<Rightarrow> contact list" where
  "returned pos k xs = sort_key (pos k) xs"

text \<open>
  The places that make the store return rows in the order of a given list \<open>ys\<close>: with
  them every order of the selected rows is a possible result (\<open>every_order_is_returned\<close>
  below).
\<close>

definition placeIn :: "contact list \<Rightarrow> nat \<Rightarrow> contact \<Rightarrow> nat" where
  "placeIn ys k c = length (takeWhile (\<lambda>y. y \<noteq> c) ys)"

text \<open>
  \<^verbatim>\<open>findMany({ where: { deletedAt: null, OR: [...] } })\<close> of step 1. A clause is in the
  \<^verbatim>\<open>OR\<close> list only when its value is truthy; an empty \<^verbatim>\<open>OR\<close> list matches no row.
\<close>

definition findMany_match ::
  "(nat \<Rightarrow> contact \<Rightarrow> nat) \<Rightarrow> nat \<Rightarrow> string option \<Rightarrow> string option \<Rightarrow> db \<Rightarrow> contact list" where
  "findMany_match pos k em ph s =
     returned pos k
       (filter (\<lambda>c. deletedAt c = None \<and>
                   ((truthy em \<and> email c = em) \<or> (truthy ph \<and> phoneNumber c = ph)))
               (rows s))"

text \<open>
  \<^verbatim>\<open>findMany({ where: { id: { in: ids }, deletedAt: null }, orderBy: { createdAt: "asc" } })\<close>.
  The only sort key is \<^verbatim>\<open>createdAt\<close>: the result ascends in \<^verbatim>\<open>createdAt\<close>, and rows with
  equal \<^verbatim>\<open>createdAt\<close> come in the order the store chooses.
\<close>

definition findMany_ids ::
  "(nat \<Rightarrow> contact \<Rightarrow> nat) \<Rightarrow> nat \<Rightarrow> int list \<Rightarrow> db \<Rightarrow> contact list" where
  "findMany_ids pos k ids s =
     sort_key createdAt
       (returned pos k (filter (\<lambda>c. id_c c \<in> set ids \<and> deletedAt c = None) (rows s)))"

text \<open>\<^verbatim>\<open>findMany({ where: { linkedId: i, deletedAt: null } })\<close> of step 4.\<close>

definition findMany_linked :: "(nat \<Rightarrow> contact \<Rightarrow> nat) \<Rightarrow> nat \<Rightarrow> int \<Rightarrow> db \<Rightarrow> contact list" where
  "findMany_linked pos k i s =
     returned pos k (filter (\<lambda>c. linkedId c = Some i \<and> deletedAt c = None) (rows s))"

text \<open>
  Modelled from the spec: the defaults of the schema, which \<^verbatim>\<open>prisma.contact.create\<close>
  relies on, are not among the sources. \<^verbatim>\<open>Create\<close> "assigns \<^verbatim>\<open>id\<close>, \<^verbatim>\<open>createdAt\<close>,
  \<^verbatim>\<open>updatedAt\<close>", the id being "monotonically ordered with creation time" and never
  reused; a new row is not soft-deleted.
\<close>

definition contact_create ::
  "int \<Rightarrow> string option \<Rightarrow> string option \<Rightarrow> precedence \<Rightarrow> int option \<Rightarrow> db \<Rightarrow> contact \<times> db" where
  "contact_create t em ph prec lnk s =
     (let c = \<lparr>id_c = nextId s, email = em, phoneNumber = ph, linkedId = lnk,
               linkPrecedence = prec, createdAt = t, updatedAt = t, deletedAt = None\<rparr>
      in (c, s\<lparr>rows := rows s @ [c], nextId := nextId s + 1\<rparr>))"

text \<open>
  \<^verbatim>\<open>prisma.contact.update({ where: { id: p.id }, data: { linkPrecedence: "secondary",
  linkedId: truePrimary.id, updatedAt: new Date() } })\<close>.
\<close>

definition contact_update :: "int \<Rightarrow> int \<Rightarrow> int \<Rightarrow> contact \<Rightarrow> contact" where
  "contact_update pid tid t c =
     (if id_c c = pid
      then c\<lparr>linkPrecedence := Secondary, linkedId := Some tid, updatedAt := t\<rparr>
      else c)"

text \<open>
  \<^verbatim>\<open>prisma.contact.updateMany({ where: { linkedId: p.id, deletedAt: null },
  data: { linkedId: truePrimary.id } })\<close>.
\<close>

definition contact_updateMany :: "int \<Rightarrow> int \<Rightarrow> contact \<Rightarrow> contact" where
  "contact_updateMany pid tid c =
     (if linkedId c = Some pid \<and> deletedAt c = None then c\<lparr>linkedId := Some tid\<rparr> else c)"

text \<open>
  A write applied to the rows of the table. That the list keeps a rewritten row where it
  was says nothing about where the store returns it afterwards: that is \<open>pos\<close>.
\<close>

definition onRows :: "(contact \<Rightarrow> contact) \<Rightarrow> db \<Rightarrow> db" where
  "onRows f s = s\<lparr>rows := map f (rows s)\<rparr>"

section \<open>The service\<close>

text \<open>\<^verbatim>\<open>primaryIds.add(x)\<close> on a \<^verbatim>\<open>Set<number>\<close>.\<close>

definition setAdd :: "int \<Rightarrow> int list \<Rightarrow> int list" where
  "setAdd x xs = (if x \<in> set xs then xs else xs @ [x])"

text \<open>
  The loop of step 3 over the matching contacts. \<^verbatim>\<open>else if (contact.linkedId)\<close> is
  a truthiness test on a \<^verbatim>\<open>number | null\<close>: null and 0 add nothing.
\<close>

fun collectPrimaryIds :: "contact list \<Rightarrow> int list \<Rightarrow> int list" where
  "collectPrimaryIds [] acc = acc"
| "collectPrimaryIds (c # cs) acc =
     collectPrimaryIds cs
       (if linkPrecedence c = Primary then setAdd (id_c c) acc
        else (case linkedId c of
                None \<Rightarrow> acc
              | Some l \<Rightarrow> if l \<noteq> 0 then setAdd l acc else acc))"

text \<open>
  \<^verbatim>\<open>buildResponse\<close>: the two loops push a secondary's value when it is truthy and not
  yet included.
\<close>

fun pushEmails :: "contact list \<Rightarrow> string list \<Rightarrow> string list" where
  "pushEmails [] acc = acc"
| "pushEmails (c # cs) acc =
     pushEmails cs
       (case email c of
          None \<Rightarrow> acc
        | Some v \<Rightarrow> if v \<noteq> [] \<and> v \<notin> set acc then acc @ [v] else acc)"

fun pushPhones :: "contact list \<Rightarrow> string list \<Rightarrow> string list" where
  "pushPhones [] acc = acc"
| "pushPhones (c # cs) acc =
     pushPhones cs
       (case phoneNumber c of
          None \<Rightarrow> acc
        | Some v \<Rightarrow> if v \<noteq> [] \<and> v \<notin> set acc then acc @ [v] else acc)"

definition buildResponse :: "contact \<Rightarrow> contact list \<Rightarrow> response" where
  "buildResponse primary secondaries =
     \<lparr>primaryContatctId = id_c primary,
      emails = pushEmails secondaries
                 (case email primary of None \<Rightarrow> [] | Some v \<Rightarrow> if v \<noteq> [] then [v] else []),
      phoneNumbers = pushPhones secondaries
                 (case phoneNumber primary of None \<Rightarrow> [] | Some v \<Rightarrow> if v \<noteq> [] then [v] else []),
      secondaryContactIds = map id_c secondaries\<rparr>"

text \<open>
  Every \<^verbatim>\<open>await prisma...\<close> is a call to the store, and a call may throw. The calls of
  one request are numbered from 0 in program order; \<open>fl k\<close> says that call \<open>k\<close>
  throws, and \<open>clk k\<close> is the time at call \<open>k\<close>. A store that never fails is
  \<open>\<lambda>_. False\<close>.

  The loop of step 3b: for each \<^verbatim>\<open>p\<close> of \<^verbatim>\<open>toMerge\<close> two separate writes, call \<open>k\<close>
  and call \<open>k + 1\<close>. A write that has been made stays made when a later call throws.
\<close>

fun mergeLoop ::
  "(nat \<Rightarrow> bool) \<Rightarrow> (nat \<Rightarrow> int) \<Rightarrow> nat \<Rightarrow> contact \<Rightarrow> contact list \<Rightarrow> db \<Rightarrow> error option \<times> db" where
  "mergeLoop fl clk k truePrimary [] s = (None, s)"
| "mergeLoop fl clk k truePrimary (p # ps) s =
     (if fl k then (Some StoreError, s)
      else let s1 = onRows (contact_update (id_c p) (id_c truePrimary) (clk k)) s in
        if fl (k + 1) then (Some StoreError, s1)
        else let s2 = onRows (contact_updateMany (id_c p) (id_c truePrimary)) s1 in
          mergeLoop fl clk (k + 2) truePrimary ps s2)"

text \<open>Step 5: the values already in the group, and whether the request brings a new one.\<close>

definition allEmails :: "contact list \<Rightarrow> string list" where
  "allEmails allContacts =
     concat (map (\<lambda>c. case email c of None \<Rightarrow> [] | Some v \<Rightarrow> if v \<noteq> [] then [v] else [])
                 allContacts)"

definition allPhones :: "contact list \<Rightarrow> string list" where
  "allPhones allContacts =
     concat (map (\<lambda>c. case phoneNumber c of None \<Rightarrow> [] | Some v \<Rightarrow> if v \<noteq> [] then [v] else [])
                 allContacts)"

definition isNewEmail :: "string option \<Rightarrow> contact list \<Rightarrow> bool" where
  "isNewEmail em allContacts = (truthy em \<and> the em \<notin> set (allEmails allContacts))"

definition isNewPhone :: "string option \<Rightarrow> contact list \<Rightarrow> bool" where
  "isNewPhone ph allContacts = (truthy ph \<and> the ph \<notin> set (allPhones allContacts))"

text \<open>
  \<^verbatim>\<open>identifyContact\<close>. The result is the response or the error thrown, and the store
  as the request leaves it. With no root found, \<^verbatim>\<open>primaryContacts[0]\<close> is
  \<^verbatim>\<open>undefined\<close>, the merge is skipped, and reading \<^verbatim>\<open>truePrimary.id\<close> for the query
  of step 4 throws a \<^verbatim>\<open>TypeError\<close> before that query is sent.
\<close>

definition identifyContact ::
  "(nat \<Rightarrow> bool) \<Rightarrow> (nat \<Rightarrow> int) \<Rightarrow> (nat \<Rightarrow> contact \<Rightarrow> nat) \<Rightarrow>
   string option \<Rightarrow> string option \<Rightarrow> db \<Rightarrow> (error + response) \<times> db" where
  "identifyContact fl clk pos em ph s =
     (if fl 0 then (Inl StoreError, s)
      else let matchingContacts = findMany_match pos 0 em ph s in
        if matchingContacts = [] then
          (if fl 1 then (Inl StoreError, s)
           else let (newContact, s1) = contact_create (clk 1) em ph Primary None s in
             (Inr (buildResponse newContact []), s1))
        else let primaryIds = collectPrimaryIds matchingContacts [] in
          if fl 1 then (Inl StoreError, s)
          else let primaryContacts = findMany_ids pos 1 primaryIds s in
            (case primaryContacts of
               [] \<Rightarrow> (Inl TypeError, s)
             | truePrimary # toMerge \<Rightarrow>
                 (case mergeLoop fl clk 2 truePrimary toMerge s of
                    (Some e, s1) \<Rightarrow> (Inl e, s1)
                  | (None, s1) \<Rightarrow>
                      let k = 2 + 2 * length toMerge in
                      if fl k then (Inl StoreError, s1)
                      else let allSecondaries = findMany_linked pos k (id_c truePrimary) s1;
                               allContacts = truePrimary # allSecondaries in
                        if isNewEmail em allContacts \<or> isNewPhone ph allContacts then
                          (if fl (k + 1) then (Inl StoreError, s1)
                           else let (newSecondary, s2) =
                                      contact_create (clk (k + 1)) em ph Secondary
                                        (Some (id_c truePrimary)) s1 in
                             (Inr (buildResponse truePrimary (allSecondaries @ [newSecondary])), s2))
                        else (Inr (buildResponse truePrimary allSecondaries), s1))))"

section \<open>The route\<close>

text \<open>
  A field of \<^verbatim>\<open>req.body\<close> as the handler reads it: absent, null, a boolean, the number 0,
  a string, or any other value (a number that is not 0, an array, an object), which is
  truthy and enters the handler only through the string that \<^verbatim>\<open>String\<close> makes of it.
\<close>

datatype jsval = JUndefined | JNull | JBool bool | JZero | JStr string | JOther string

fun truthyV :: "jsval \<Rightarrow> bool" where
  "truthyV JUndefined = False"
| "truthyV JNull = False"
| "truthyV (JBool b) = b"
| "truthyV JZero = False"
| "truthyV (JStr v) = (v \<noteq> [])"
| "truthyV (JOther v) = True"

text \<open>\<^verbatim>\<open>String(x)\<close>.\<close>

fun toStringV :: "jsval \<Rightarrow> string" where
  "toStringV JUndefined = ''undefined''"
| "toStringV JNull = ''null''"
| "toStringV (JBool b) = (if b then ''true'' else ''false'')"
| "toStringV JZero = ''0''"
| "toStringV (JStr v) = v"
| "toStringV (JOther v) = v"

datatype http = Status200 response | Status400 string | Status500 string

text \<open>The handler of \<^verbatim>\<open>POST /identify\<close>.\<close>

definition identifyRouter ::
  "(nat \<Rightarrow> bool) \<Rightarrow> (nat \<Rightarrow> int) \<Rightarrow> (nat \<Rightarrow> contact \<Rightarrow> nat) \<Rightarrow>
   jsval \<Rightarrow> jsval \<Rightarrow> db \<Rightarrow> http \<times> db" where
  "identifyRouter fl clk pos emailV phoneV s =
     (if \<not> truthyV emailV \<and> \<not> truthyV phoneV
      then (Status400 ''At least one of email or phoneNumber is required.'', s)
      else (case identifyContact fl clk pos
                   (if truthyV emailV then Some (toStringV emailV) else None)
                   (if truthyV phoneV then Some (toStringV phoneV) else None) s of
              (Inr result, s') \<Rightarrow> (Status200 result, s')
            | (Inl e, s') \<Rightarrow> (Status500 ''Internal server error'', s')))"

section \<open>Notions used in the statements\<close>

text \<open>No call to the store throws.\<close>

abbreviation noFault :: "nat \<Rightarrow> bool" where
  "noFault \<equiv> (\<lambda>_. False)"

text \<open>
  The roots of a request: the list \<^verbatim>\<open>primaryContacts\<close> that \<^verbatim>\<open>identifyContact\<close> computes
  in step 3, as a function of the request and the store.
\<close>

definition primaryContacts ::
  "(nat \<Rightarrow> contact \<Rightarrow> nat) \<Rightarrow> string option \<Rightarrow> string option \<Rightarrow> db \<Rightarrow> contact list" where
  "primaryContacts pos em ph s =
     findMany_ids pos 1 (collectPrimaryIds (findMany_match pos 0 em ph s) []) s"

text \<open>The id that one iteration of the loop of step 3 adds for a matching contact, if any.\<close>

definition rootIdOf :: "contact \<Rightarrow> int option" where
  "rootIdOf c =
     (if linkPrecedence c = Primary then Some (id_c c)
      else (case linkedId c of None \<Rightarrow> None | Some l \<Rightarrow> if l \<noteq> 0 then Some l else None))"

text \<open>What the two writes of every iteration of the merge loop do to one row.\<close>

fun mergeRow :: "(nat \<Rightarrow> int) \<Rightarrow> nat \<Rightarrow> int \<Rightarrow> contact list \<Rightarrow> contact \<Rightarrow> contact" where
  "mergeRow clk k tid [] c = c"
| "mergeRow clk k tid (p # ps) c =
     mergeRow clk (k + 2) tid ps
       (contact_updateMany (id_c p) tid (contact_update (id_c p) tid (clk k) c))"

text \<open>A list without the later repetitions of its elements.\<close>

definition firstOccurrences :: "'a list \<Rightarrow> 'a list" where
  "firstOccurrences xs = rev (remdups (rev xs))"

text \<open>
  The invariant of the table. Ids are unique and below the next value of the sequence,
  and so is every \<^verbatim>\<open>linkedId\<close>; a primary has no \<^verbatim>\<open>linkedId\<close>; a secondary that is not
  soft-deleted is linked to a row that is a primary.
\<close>

definition wellFormed :: "db \<Rightarrow> bool" where
  "wellFormed s \<longleftrightarrow>
     distinct (map id_c (rows s)) \<and>
     (\<forall>c\<in>set (rows s).
        id_c c < nextId s \<and>
        (case linkedId c of None \<Rightarrow> True | Some l \<Rightarrow> l < nextId s) \<and>
        (linkPrecedence c = Primary \<longrightarrow> linkedId c = None) \<and>
        (linkPrecedence c = Secondary \<and> deletedAt c = None \<longrightarrow>
           (\<exists>p\<in>set (rows s). linkPrecedence p = Primary \<and> linkedId c = Some (id_c p))))"

text \<open>The store after step 3b of a request during which the store does not fail.\<close>

definition mergedStore ::
  "(nat \<Rightarrow> int) \<Rightarrow> (nat \<Rightarrow> contact \<Rightarrow> nat) \<Rightarrow> string option \<Rightarrow> string option \<Rightarrow> db \<Rightarrow> db" where
  "mergedStore clk pos em ph s =
     (case primaryContacts pos em ph s of
        [] \<Rightarrow> s
      | truePrimary # toMerge \<Rightarrow> snd (mergeLoop noFault clk 2 truePrimary toMerge s))"

text \<open>
  The rows of a table that are not soft-deleted and are linked to the id \<open>i\<close>, and whether
  a row has the email or the phone number of a request (a null or empty value of the
  request matches nothing).
\<close>

definition linkedTo :: "int \<Rightarrow> contact list \<Rightarrow> contact list" where
  "linkedTo i xs = filter (\<lambda>c. linkedId c = Some i \<and> deletedAt c = None) xs"

text \<open>
  The group that a request with the given roots resolves to: the roots, and every row
  that is not soft-deleted and is linked to one of them. After the merge these are the
  true primary and the rows linked to it.
\<close>

definition resolvedGroup :: "contact list \<Rightarrow> db \<Rightarrow> contact list" where
  "resolvedGroup roots s =
     roots @ filter (\<lambda>c. deletedAt c = None \<and> linkedId c \<in> Some ` id_c ` set roots) (rows s)"

definition matching :: "string option \<Rightarrow> string option \<Rightarrow> contact \<Rightarrow> bool" where
  "matching em ph c \<longleftrightarrow>
     deletedAt c = None \<and> ((truthy em \<and> email c = em) \<or> (truthy ph \<and> phoneNumber c = ph))"

section \<open>Example stores\<close>

definition mkContact ::
  "int \<Rightarrow> string \<Rightarrow> string \<Rightarrow> int option \<Rightarrow> precedence \<Rightarrow> int \<Rightarrow> int option \<Rightarrow> contact" where
  "mkContact i e p l prec t d =
     \<lparr>id_c = i, email = Some e, phoneNumber = Some p, linkedId = l, linkPrecedence = prec,
      createdAt = t, updatedAt = t, deletedAt = d\<rparr>"

text \<open>Two primaries, the older one first, and a secondary of the younger one.\<close>

definition store_ABC :: db where
  "store_ABC =
     \<lparr>rows = [mkContact 1 ''a@x.com'' ''111'' None Primary 10 None,
              mkContact 2 ''b@x.com'' ''222'' None Primary 20 None,
              mkContact 3 ''c@x.com'' ''222'' (Some 2) Secondary 30 None],
      nextId = 4\<rparr>"

text \<open>The same, the secondary being soft-deleted.\<close>

definition store_ABC_deleted :: db where
  "store_ABC_deleted =
     \<lparr>rows = [mkContact 1 ''a@x.com'' ''111'' None Primary 10 None,
              mkContact 2 ''b@x.com'' ''222'' None Primary 20 None,
              mkContact 3 ''c@x.com'' ''333'' (Some 2) Secondary 30 (Some 40)],
      nextId = 4\<rparr>"

text \<open>Two primaries created at the same time.\<close>

definition store_tie :: db where
  "store_tie =
     \<lparr>rows = [mkContact 2 ''b@x.com'' ''222'' None Primary 10 None,
              mkContact 1 ''a@x.com'' ''111'' None Primary 10 None],
      nextId = 3\<rparr>"

text \<open>A soft-deleted primary and its secondary.\<close>

definition store_orphan :: db where
  "store_orphan =
     \<lparr>rows = [mkContact 1 ''a@x.com'' ''111'' None Primary 10 (Some 50),
              mkContact 2 ''c@x.com'' ''111'' (Some 1) Secondary 30 None],
      nextId = 3\<rparr>"

text \<open>
  The primary of row 2 is soft-deleted; row 2 has the email and the primary 3 the phone
  number of the request used below.
\<close>

definition store_mixed :: db where
  "store_mixed =
     \<lparr>rows = [mkContact 1 ''a@x.com'' ''111'' None Primary 10 (Some 50),
              mkContact 2 ''c@x.com'' ''111'' (Some 1) Secondary 30 None,
              mkContact 3 ''e@x.com'' ''333'' None Primary 40 None],
      nextId = 4\<rparr>"

definition clock0 :: "nat \<Rightarrow> int" where
  "clock0 k = 100 + int k"

text \<open>Two choices of the store: rows come back as the table lists them, or by descending id.\<close>

definition tableOrder :: "nat \<Rightarrow> contact \<Rightarrow> nat" where
  "tableOrder k c = 0"

definition idDescending :: "nat \<Rightarrow> contact \<Rightarrow> nat" where
  "idDescending k c = nat (1000 - id_c c)"

section \<open>The steps of the service\<close>

lemma set_returned [simp]: "set (returned pos k xs) = set xs"
  and mset_returned [simp]: "mset (returned pos k xs) = mset xs"
  and length_returned [simp]: "length (returned pos k xs) = length xs"
  and distinct_returned [simp]: "distinct (returned pos k xs) = distinct xs"
  by (simp_all add: returned_def)

lemma returned_Nil [simp]: "returned pos k [] = []"
  by (simp add: returned_def)

lemma returned_Nil_iff [simp]: "returned pos k xs = [] \<longleftrightarrow> xs = []"
  using length_returned[of pos k xs] by (metis length_0_conv)

lemma returned_tableOrder [simp]: "returned tableOrder k xs = xs"
  unfolding returned_def tableOrder_def by (induction xs) (simp_all add: insort_is_Cons)

lemma map_placeIn:
  "distinct ys \<Longrightarrow> map (placeIn ys k) ys = [0..<length ys]"
proof (induction ys)
  case Nil
  then show ?case by simp
next
  case (Cons y ys)
  have "map (placeIn (y # ys) k) ys = map (Suc \<circ> placeIn ys k) ys"
    using Cons.prems by (intro map_cong) (auto simp: placeIn_def)
  also have "\<dots> = map Suc [0..<length ys]"
    using Cons by (simp flip: map_map)
  finally have rest: "map (placeIn (y # ys) k) ys = [Suc 0..<Suc (length ys)]"
    by (simp add: map_Suc_upt)
  have "placeIn (y # ys) k y = 0" by (simp add: placeIn_def)
  with rest show ?case by (simp add: upt_conv_Cons del: upt_Suc)
qed

lemma every_order_is_returned:
  assumes "mset ys = mset xs" and "distinct xs"
  shows "returned (placeIn ys) k xs = ys"
proof -
  let ?f = "placeIn ys k"
  let ?zs = "returned (placeIn ys) k xs"
  have dy: "distinct ys" using assms by (metis mset_eq_imp_distinct_iff)
  have key: "map ?f ys = [0..<length ys]" using dy by (rule map_placeIn)
  then have dk: "distinct (map ?f ys)" and sk: "sorted (map ?f ys)" by simp_all
  from dk have inj: "inj_on ?f (set ys)" by (simp add: distinct_map)
  have sz: "set ?zs = set ys" using assms(1) by (simp add: returned_def) (metis mset_eq_setD)
  have "distinct ?zs" using assms(2) by simp
  with inj sz have "distinct (map ?f ?zs)" by (simp add: distinct_map)
  moreover have "sorted (map ?f ?zs)" by (simp add: returned_def)
  moreover have "inj_on ?f (set ?zs \<union> set ys)" using inj sz by simp
  ultimately show ?thesis using dk sk sz by (intro map_sorted_distinct_set_unique[of ?f])
qed

lemma every_ascending_order_is_returned:
  assumes "mset ys = mset xs" and "distinct xs" and "sorted (map createdAt ys)"
  shows "sort_key createdAt (returned (placeIn ys) k xs) = ys"
  using assms by (simp add: every_order_is_returned sort_key_id_if_sorted)

lemma set_setAdd: "set (setAdd x xs) = insert x (set xs)"
  by (auto simp: setAdd_def)

lemma set_collectPrimaryIds:
  "set (collectPrimaryIds cs acc) = set acc \<union> {i. \<exists>m\<in>set cs. rootIdOf m = Some i}"
  by (induction cs arbitrary: acc) (auto simp: set_setAdd rootIdOf_def split: option.splits if_splits)

lemma set_primaryContacts:
  "set (primaryContacts pos em ph s) =
     {c \<in> set (rows s). deletedAt c = None \<and>
        (\<exists>m\<in>set (findMany_match pos 0 em ph s). rootIdOf m = Some (id_c c))}"
  by (auto simp: primaryContacts_def findMany_ids_def set_collectPrimaryIds)

lemma set_findMany_match:
  "set (findMany_match pos k em ph s) =
     {c \<in> set (rows s). deletedAt c = None \<and>
        ((truthy em \<and> email c = em) \<or> (truthy ph \<and> phoneNumber c = ph))}"
  by (auto simp: findMany_match_def)



lemma set_findMany_linked:
  "set (findMany_linked pos k i s) = {c \<in> set (rows s). linkedId c = Some i \<and> deletedAt c = None}"
  by (auto simp: findMany_linked_def)

lemma mset_findMany_linked:
  "mset (findMany_linked pos k i s) = mset (linkedTo i (rows s))"
  by (simp add: findMany_linked_def linkedTo_def)

lemma mergeLoop_noFault:
  "mergeLoop noFault clk k tp ps s = (None, onRows (mergeRow clk k (id_c tp) ps) s)"
proof (induction ps arbitrary: k s)
  case Nil
  show ?case by (simp add: onRows_def)
next
  case (Cons p ps)
  show ?case by (simp add: Cons.IH Let_def onRows_def comp_def)
qed

lemma mergeRow_same [simp]:
  "id_c (mergeRow clk k tid ps c) = id_c c"
  "email (mergeRow clk k tid ps c) = email c"
  "phoneNumber (mergeRow clk k tid ps c) = phoneNumber c"
  "createdAt (mergeRow clk k tid ps c) = createdAt c"
  "deletedAt (mergeRow clk k tid ps c) = deletedAt c"
  by (induction ps arbitrary: k c; simp add: contact_update_def contact_updateMany_def)+

lemma mergeRow_linkPrecedence:
  "linkPrecedence (mergeRow clk k tid ps c) =
     (if id_c c \<in> id_c ` set ps then Secondary else linkPrecedence c)"
  by (induction ps arbitrary: k c) (auto simp: contact_update_def contact_updateMany_def)

lemma mergeRow_linkedId:
  "linkedId (mergeRow clk k tid ps c) =
     (if id_c c \<in> id_c ` set ps then Some tid
      else if deletedAt c = None \<and> linkedId c \<in> Some ` id_c ` set ps then Some tid
      else linkedId c)"
  by (induction ps arbitrary: k c) (auto simp: contact_update_def contact_updateMany_def)

lemma mergeRow_unchanged:
  "id_c c \<notin> id_c ` set ps \<Longrightarrow> linkedId c \<notin> Some ` id_c ` set ps \<Longrightarrow>
   mergeRow clk k tid ps c = c"
  by (induction ps arbitrary: k c) (auto simp: contact_update_def contact_updateMany_def)

lemma identify_noFault_nomatch:
  "findMany_match pos 0 em ph s = [] \<Longrightarrow>
   identifyContact noFault clk pos em ph s =
     (let c = \<lparr>id_c = nextId s, email = em, phoneNumber = ph, linkedId = None,
               linkPrecedence = Primary, createdAt = clk 1, updatedAt = clk 1, deletedAt = None\<rparr>
      in (Inr (buildResponse c []), s\<lparr>rows := rows s @ [c], nextId := nextId s + 1\<rparr>))"
  by (simp add: identifyContact_def contact_create_def Let_def)

lemma primaryContacts_Cons_match:
  "primaryContacts pos em ph s = tp # ps \<Longrightarrow> findMany_match pos 0 em ph s \<noteq> []"
  by (auto simp: primaryContacts_def findMany_ids_def)

lemma identify_noFault_match:
  assumes "primaryContacts pos em ph s = tp # ps"
  shows "identifyContact noFault clk pos em ph s =
     (let s1 = onRows (mergeRow clk 2 (id_c tp) ps) s;
          allSecondaries = findMany_linked pos (2 + 2 * length ps) (id_c tp) s1;
          c = \<lparr>id_c = nextId s, email = em, phoneNumber = ph, linkedId = Some (id_c tp),
               linkPrecedence = Secondary, createdAt = clk (2 + 2 * length ps + 1),
               updatedAt = clk (2 + 2 * length ps + 1), deletedAt = None\<rparr>
      in if isNewEmail em (tp # allSecondaries) \<or> isNewPhone ph (tp # allSecondaries)
         then (Inr (buildResponse tp (allSecondaries @ [c])),
               s1\<lparr>rows := rows s1 @ [c], nextId := nextId s + 1\<rparr>)
         else (Inr (buildResponse tp allSecondaries), s1))"
proof -
  have m: "findMany_match pos 0 em ph s \<noteq> []" using assms by (rule primaryContacts_Cons_match)
  have p: "findMany_ids pos 1 (collectPrimaryIds (findMany_match pos 0 em ph s) []) s = tp # ps"
    using assms by (simp add: primaryContacts_def)
  show ?thesis
    using m p
    by (simp add: identifyContact_def mergeLoop_noFault contact_create_def Let_def onRows_def)
qed


section \<open>The invariant is kept\<close>

lemma id_c_inj:
  "distinct (map id_c xs) \<Longrightarrow> a \<in> set xs \<Longrightarrow> b \<in> set xs \<Longrightarrow> id_c a = id_c b \<Longrightarrow> a = b"
  by (auto simp: distinct_map dest: inj_onD)

lemma wellFormedD:
  assumes "wellFormed s"
  shows "distinct (map id_c (rows s))"
    and "c \<in> set (rows s) \<Longrightarrow> id_c c < nextId s"
    and "c \<in> set (rows s) \<Longrightarrow> linkedId c = Some l \<Longrightarrow> l < nextId s"
    and "c \<in> set (rows s) \<Longrightarrow> linkPrecedence c = Primary \<Longrightarrow> linkedId c = None"
    and "c \<in> set (rows s) \<Longrightarrow> linkPrecedence c = Secondary \<Longrightarrow> deletedAt c = None \<Longrightarrow>
           \<exists>p\<in>set (rows s). linkPrecedence p = Primary \<and> linkedId c = Some (id_c p)"
  using assms unfolding wellFormed_def by (auto split: option.splits)

lemma wellFormedI:
  assumes "distinct (map id_c (rows s))"
    and "\<And>c. c \<in> set (rows s) \<Longrightarrow> id_c c < nextId s"
    and "\<And>c l. c \<in> set (rows s) \<Longrightarrow> linkedId c = Some l \<Longrightarrow> l < nextId s"
    and "\<And>c. c \<in> set (rows s) \<Longrightarrow> linkPrecedence c = Primary \<Longrightarrow> linkedId c = None"
    and "\<And>c. c \<in> set (rows s) \<Longrightarrow> linkPrecedence c = Secondary \<Longrightarrow> deletedAt c = None \<Longrightarrow>
           \<exists>p\<in>set (rows s). linkPrecedence p = Primary \<and> linkedId c = Some (id_c p)"
  shows "wellFormed s"
  unfolding wellFormed_def using assms by (auto split: option.splits)

lemma root_is_primary:
  assumes wf: "wellFormed s" and c: "c \<in> set (primaryContacts pos em ph s)"
  shows "c \<in> set (rows s) \<and> linkPrecedence c = Primary \<and> deletedAt c = None \<and> linkedId c = None"
proof -
  from c obtain m where cr: "c \<in> set (rows s)" and cd: "deletedAt c = None"
    and m: "m \<in> set (findMany_match pos 0 em ph s)" and r: "rootIdOf m = Some (id_c c)"
    unfolding set_primaryContacts by auto
  from m have mr: "m \<in> set (rows s)" and md: "deletedAt m = None"
    unfolding set_findMany_match by auto
  have "linkPrecedence c = Primary"
  proof (cases "linkPrecedence m")
    case Primary
    with r have "id_c m = id_c c" by (simp add: rootIdOf_def)
    with wellFormedD(1)[OF wf] mr cr have "m = c" by (rule id_c_inj)
    with Primary show ?thesis by simp
  next
    case Secondary
    with r have l: "linkedId m = Some (id_c c)"
      by (auto simp: rootIdOf_def split: option.splits if_splits)
    from wellFormedD(5)[OF wf mr Secondary md] obtain p where
      p: "p \<in> set (rows s)" "linkPrecedence p = Primary" "linkedId m = Some (id_c p)" by auto
    with l have "id_c p = id_c c" by simp
    with wellFormedD(1)[OF wf] p(1) cr have "p = c" by (rule id_c_inj)
    with p(2) show ?thesis by simp
  qed
  with cr cd wellFormedD(4)[OF wf cr] show ?thesis by simp
qed

lemma distinct_roots:
  assumes "wellFormed s"
  shows "distinct (map id_c (primaryContacts pos em ph s))"
proof -
  have "distinct (map id_c (filter P (rows s)))" for P
    using wellFormedD(1)[OF assms] by (rule distinct_map_filter)
  then show ?thesis
    unfolding primaryContacts_def findMany_ids_def
    by (simp add: distinct_map inj_on_def) 
qed

lemma roots_Cons:
  assumes wf: "wellFormed s" and r: "primaryContacts pos em ph s = tp # ps"
  shows "tp \<in> set (rows s)" "linkPrecedence tp = Primary" "deletedAt tp = None" "linkedId tp = None"
    "id_c tp \<notin> id_c ` set ps"
    "\<forall>p\<in>set ps. p \<in> set (rows s) \<and> linkPrecedence p = Primary \<and> deletedAt p = None \<and> linkedId p = None"
proof -
  have "tp \<in> set (primaryContacts pos em ph s)" using r by simp
  from root_is_primary[OF wf this]
  show "tp \<in> set (rows s)" "linkPrecedence tp = Primary" "deletedAt tp = None" "linkedId tp = None"
    by simp_all
  from distinct_roots[OF wf, of pos em ph] r show "id_c tp \<notin> id_c ` set ps" by simp
  show "\<forall>p\<in>set ps. p \<in> set (rows s) \<and> linkPrecedence p = Primary \<and> deletedAt p = None \<and> linkedId p = None"
  proof
    fix p assume "p \<in> set ps"
    then have "p \<in> set (primaryContacts pos em ph s)" using r by simp
    from root_is_primary[OF wf this]
    show "p \<in> set (rows s) \<and> linkPrecedence p = Primary \<and> deletedAt p = None \<and> linkedId p = None" .
  qed
qed

lemma truePrimary_unchanged:
  assumes wf: "wellFormed s" and r: "primaryContacts pos em ph s = tp # ps"
  shows "mergeRow clk k (id_c tp) ps tp = tp"
  using roots_Cons(4,5)[OF wf r] by (intro mergeRow_unchanged) auto

lemma nextId_onRows [simp]: "nextId (onRows f s) = nextId s"
  and rows_onRows [simp]: "rows (onRows f s) = map f (rows s)"
  by (simp_all add: onRows_def)

lemma wellFormed_merge:
  assumes wf: "wellFormed s" and r: "primaryContacts pos em ph s = tp # ps"
  shows "wellFormed (onRows (mergeRow clk k (id_c tp) ps) s)"
proof (rule wellFormedI)
  let ?f = "mergeRow clk k (id_c tp) ps"
  let ?s1 = "onRows ?f s"
  note R = roots_Cons[OF wf r]
  have tp': "?f tp = tp" using wf r by (rule truePrimary_unchanged)
  show "distinct (map id_c (rows ?s1))"
    using wellFormedD(1)[OF wf] by (simp add: comp_def)
  show "id_c c < nextId ?s1" if "c \<in> set (rows ?s1)" for c
    using that wellFormedD(2)[OF wf] by auto
  show "l < nextId ?s1" if "c \<in> set (rows ?s1)" "linkedId c = Some l" for c l
  proof -
    from that obtain c0 where c0: "c0 \<in> set (rows s)" "c = ?f c0" by auto
    with that(2) have "l = id_c tp \<or> linkedId c0 = Some l"
      by (auto simp: mergeRow_linkedId split: if_splits)
    then show ?thesis
      using wellFormedD(3)[OF wf c0(1)] wellFormedD(2)[OF wf R(1)] by auto
  qed
  show "linkedId c = None" if "c \<in> set (rows ?s1)" "linkPrecedence c = Primary" for c
  proof -
    from that obtain c0 where c0: "c0 \<in> set (rows s)" "c = ?f c0" by auto
    with that(2) have "id_c c0 \<notin> id_c ` set ps" "linkPrecedence c0 = Primary"
      by (auto simp: mergeRow_linkPrecedence split: if_splits)
    with wellFormedD(4)[OF wf c0(1)] c0(2) show ?thesis
      by (auto simp: mergeRow_linkedId)
  qed
  show "\<exists>p\<in>set (rows ?s1). linkPrecedence p = Primary \<and> linkedId c = Some (id_c p)"
    if "c \<in> set (rows ?s1)" "linkPrecedence c = Secondary" "deletedAt c = None" for c
  proof -
    from that obtain c0 where c0: "c0 \<in> set (rows s)" "c = ?f c0" by auto
    have tpin: "tp \<in> set (rows ?s1)" using R(1) tp' by (force simp: image_iff)
    show ?thesis
    proof (cases "linkedId c = Some (id_c tp)")
      case True
      with R(2) tpin show ?thesis by blast
    next
      case False
      then have nin: "id_c c0 \<notin> id_c ` set ps" and l: "linkedId c = linkedId c0"
        and nl: "linkedId c0 \<notin> Some ` id_c ` set ps"
        using c0(2) that(3) by (auto simp: mergeRow_linkedId split: if_splits)
      from nin that(2,3) c0(2) have "linkPrecedence c0 = Secondary" "deletedAt c0 = None"
        by (auto simp: mergeRow_linkPrecedence)
      from wellFormedD(5)[OF wf c0(1) this] obtain p where
        p: "p \<in> set (rows s)" "linkPrecedence p = Primary" "linkedId c0 = Some (id_c p)" by auto
      with nl have "id_c p \<notin> id_c ` set ps" by auto
      with p(2) have "linkPrecedence (?f p) = Primary" by (simp add: mergeRow_linkPrecedence)
      moreover have "?f p \<in> set (rows ?s1)" using p(1) by simp
      moreover have "linkedId c = Some (id_c (?f p))" using l p(3) by simp
      ultimately show ?thesis by blast
    qed
  qed
qed

lemma wellFormed_append:
  assumes wf: "wellFormed s"
    and c: "id_c c = nextId s"
    and lk: "linkedId c = None \<and> linkPrecedence c = Primary \<or>
         linkPrecedence c = Secondary \<and>
             (\<exists>p\<in>set (rows s). linkPrecedence p = Primary \<and> linkedId c = Some (id_c p))"
  shows "wellFormed (s\<lparr>rows := rows s @ [c], nextId := nextId s + 1\<rparr>)"
proof (rule wellFormedI)
  let ?s' = "s\<lparr>rows := rows s @ [c], nextId := nextId s + 1\<rparr>"
  have fresh: "nextId s \<notin> id_c ` set (rows s)"
    using wellFormedD(2)[OF wf] by force
  show "distinct (map id_c (rows ?s'))"
    using wellFormedD(1)[OF wf] fresh c by simp
  show "id_c x < nextId ?s'" if "x \<in> set (rows ?s')" for x
    using that c wellFormedD(2)[OF wf, of x] by auto
  show "l < nextId ?s'" if "x \<in> set (rows ?s')" "linkedId x = Some l" for x l
  proof (cases "x = c")
    case True
    with that(2) lk obtain p where "p \<in> set (rows s)" "l = id_c p" by auto
    with wellFormedD(2)[OF wf, of p] show ?thesis by simp
  next
    case False
    with that wellFormedD(3)[OF wf, of x l] show ?thesis by simp
  qed
  show "linkedId x = None" if "x \<in> set (rows ?s')" "linkPrecedence x = Primary" for x
    using that lk wellFormedD(4)[OF wf, of x] by auto
  show "\<exists>p\<in>set (rows ?s'). linkPrecedence p = Primary \<and> linkedId x = Some (id_c p)"
    if "x \<in> set (rows ?s')" "linkPrecedence x = Secondary" "deletedAt x = None" for x
  proof (cases "x = c")
    case True
    with that(2) lk show ?thesis by auto
  next
    case False
    with that wellFormedD(5)[OF wf, of x] show ?thesis by auto
  qed
qed

lemma wellFormed_identify:
  assumes wf: "wellFormed s"
  shows "wellFormed (snd (identifyContact noFault clk pos em ph s))"
proof (cases "primaryContacts pos em ph s")
  case Nil
  show ?thesis
  proof (cases "findMany_match pos 0 em ph s = []")
    case True
    then show ?thesis
      using wellFormed_append[OF wf, of "\<lparr>id_c = nextId s, email = em, phoneNumber = ph, linkedId = None,
               linkPrecedence = Primary, createdAt = clk 1, updatedAt = clk 1, deletedAt = None\<rparr>"]
      by (simp add: identify_noFault_nomatch Let_def)
  next
    case False
    with Nil have "identifyContact noFault clk pos em ph s = (Inl TypeError, s)"
      by (simp add: identifyContact_def primaryContacts_def)
    with wf show ?thesis by simp
  qed
next
  case (Cons tp ps)
  let ?s1 = "onRows (mergeRow clk 2 (id_c tp) ps) s"
  have wf1: "wellFormed ?s1" using wf Cons by (rule wellFormed_merge)
  have tp1: "tp \<in> set (rows ?s1)"
    using roots_Cons(1)[OF wf Cons] truePrimary_unchanged[OF wf Cons, where clk=clk and k=2]
    by (force simp: image_iff)
  have "wellFormed (?s1\<lparr>rows := rows ?s1 @ [c], nextId := nextId s + 1\<rparr>)"
    if "id_c c = nextId s" "linkedId c = Some (id_c tp)" "linkPrecedence c = Secondary" for c
  proof -
    have "\<exists>p\<in>set (rows ?s1). linkPrecedence p = Primary \<and> linkedId c = Some (id_c p)"
      using that(2) tp1 roots_Cons(2)[OF wf Cons] by blast
    with that wellFormed_append[OF wf1, of c] show ?thesis by simp
  qed
  then show ?thesis
    using wf1 by (simp add: identify_noFault_match[OF Cons] Let_def)
qed

section \<open>A request that matches nothing\<close>

text \<open>
  C6. When no row that is not soft-deleted has the given email or the given phone number
  (a value that is null or empty matches nothing), and no call to the store fails,
  \<^verbatim>\<open>identifyContact\<close> adds exactly one row, a primary without \<^verbatim>\<open>linkedId\<close> that holds the
  given email and phone number, and answers with that row alone: no secondary ids, the
  email if there is one, the phone number if there is one.
\<close>

theorem C6_no_match_creates_primary:
  assumes "\<forall>c\<in>set (rows s). deletedAt c = None \<longrightarrow>
             (truthy em \<longrightarrow> email c \<noteq> em) \<and> (truthy ph \<longrightarrow> phoneNumber c \<noteq> ph)"
  shows "identifyContact noFault clk pos em ph s =
     (Inr \<lparr>primaryContatctId = nextId s,
            emails = (if truthy em then [the em] else []),
            phoneNumbers = (if truthy ph then [the ph] else []),
            secondaryContactIds = []\<rparr>,
      \<lparr>rows = rows s @
                [\<lparr>id_c = nextId s, email = em, phoneNumber = ph, linkedId = None,
                  linkPrecedence = Primary, createdAt = clk 1, updatedAt = clk 1,
                  deletedAt = None\<rparr>],
        nextId = nextId s + 1\<rparr>)"
proof -
  have "set (findMany_match pos 0 em ph s) = {}"
    unfolding set_findMany_match using assms by auto
  then have "findMany_match pos 0 em ph s = []" by simp
  then show ?thesis
    by (cases s)
       (simp add: identify_noFault_nomatch buildResponse_def truthy_def Let_def
             split: option.splits)
qed

theorem C6_witness:
  "findMany_match tableOrder 0 (Some ''z@x.com'') None store_ABC = [] \<and>
   identifyContact noFault clock0 tableOrder (Some ''z@x.com'') None store_ABC =
     (Inr \<lparr>primaryContatctId = 4, emails = [''z@x.com''], phoneNumbers = [],
            secondaryContactIds = []\<rparr>,
      \<lparr>rows = rows store_ABC @
                [\<lparr>id_c = 4, email = Some ''z@x.com'', phoneNumber = None, linkedId = None,
                  linkPrecedence = Primary, createdAt = 101, updatedAt = 101,
                  deletedAt = None\<rparr>],
        nextId = 5\<rparr>)"
proof -
  have h: "\<forall>c\<in>set (rows store_ABC). deletedAt c = None \<longrightarrow>
       (truthy (Some ''z@x.com'') \<longrightarrow> email c \<noteq> Some ''z@x.com'') \<and>
       (truthy None \<longrightarrow> phoneNumber c \<noteq> None)"
    by (simp add: store_ABC_def mkContact_def truthy_def)
  have m: "findMany_match tableOrder 0 (Some ''z@x.com'') None store_ABC = []"
    by (simp add: findMany_match_def store_ABC_def mkContact_def truthy_def)
  show ?thesis
    using m C6_no_match_creates_primary [OF h, of clock0 tableOrder]
    by (simp add: truthy_def clock0_def store_ABC_def)
qed

section \<open>A request without identifiers\<close>

text \<open>
  C9. When \<^verbatim>\<open>email\<close> and \<^verbatim>\<open>phoneNumber\<close> are both absent (or falsy) in the body, the
  handler answers 400 and leaves the store as it is. It does so whatever the store would
  do, also when every call to it would throw: no call is made.
\<close>

theorem C9_absent_identifiers_rejected:
  "\<not> truthyV emailV \<Longrightarrow> \<not> truthyV phoneV \<Longrightarrow>
   identifyRouter fl clk pos emailV phoneV s =
     (Status400 ''At least one of email or phoneNumber is required.'', s)"
  by (simp add: identifyRouter_def)

theorem C9_witness:
  "\<not> truthyV JUndefined \<and> \<not> truthyV JNull \<and>
   identifyRouter (\<lambda>_. True) clock0 tableOrder JUndefined JNull store_ABC =
     (Status400 ''At least one of email or phoneNumber is required.'', store_ABC)"
  using C9_absent_identifiers_rejected [of JUndefined JNull "\<lambda>_. True" clock0 tableOrder store_ABC]
  by simp

section \<open>The unguarded read of the first root\<close>

text \<open>
  C10. With a store that does not fail, \<^verbatim>\<open>identifyContact\<close> throws the \<^verbatim>\<open>TypeError\<close> of
  \<^verbatim>\<open>truePrimary.id\<close> exactly when some row matches the request and no matching row resolves
  to a row that is not soft-deleted: each matching row is a secondary whose
  \<^verbatim>\<open>linkedId\<close> is null (or 0), or is the id of no row, or of a soft-deleted row. The store
  is then left as it was. The example is a secondary of a soft-deleted primary. One
  matching row that resolves is enough for the read to be safe; it is not needed that
  each of them does: in the counterexample one matching row is the secondary of a
  soft-deleted primary, another is a primary, and the call answers.
\<close>

theorem C10_no_root_TypeError:
  "(identifyContact noFault clk pos em ph s = (Inl TypeError, s) \<longleftrightarrow>
      findMany_match pos 0 em ph s \<noteq> [] \<and>
      (\<forall>m\<in>set (findMany_match pos 0 em ph s). \<forall>c\<in>set (rows s).
          deletedAt c = None \<longrightarrow> rootIdOf m \<noteq> Some (id_c c))) \<and>
   (fst (identifyContact noFault clk pos em ph s) = Inl TypeError \<longleftrightarrow>
      findMany_match pos 0 em ph s \<noteq> [] \<and>
      (\<forall>m\<in>set (findMany_match pos 0 em ph s). \<forall>c\<in>set (rows s).
          deletedAt c = None \<longrightarrow> rootIdOf m \<noteq> Some (id_c c)))"
proof -
  let ?cond = "findMany_match pos 0 em ph s \<noteq> [] \<and>
     (\<forall>m\<in>set (findMany_match pos 0 em ph s). \<forall>c\<in>set (rows s).
         deletedAt c = None \<longrightarrow> rootIdOf m \<noteq> Some (id_c c))"
  have roots: "primaryContacts pos em ph s = [] \<longleftrightarrow>
     (\<forall>m\<in>set (findMany_match pos 0 em ph s). \<forall>c\<in>set (rows s).
         deletedAt c = None \<longrightarrow> rootIdOf m \<noteq> Some (id_c c))"
  proof -
    have "primaryContacts pos em ph s = [] \<longleftrightarrow> set (primaryContacts pos em ph s) = {}" by simp
    then show ?thesis unfolding set_primaryContacts by auto
  qed
  show ?thesis
  proof (cases "findMany_match pos 0 em ph s = []")
    case True
    then show ?thesis by (simp add: identify_noFault_nomatch Let_def)
  next
    case False
    show ?thesis
    proof (cases "primaryContacts pos em ph s")
      case Nil
      then have "findMany_ids pos 1 (collectPrimaryIds (findMany_match pos 0 em ph s) []) s = []"
        by (simp add: primaryContacts_def)
      then have "identifyContact noFault clk pos em ph s = (Inl TypeError, s)"
        using False by (simp add: identifyContact_def)
      then show ?thesis using False Nil roots by simp
    next
      case (Cons tp ps)
      then have "fst (identifyContact noFault clk pos em ph s) \<noteq> Inl TypeError"
        by (simp add: identify_noFault_match Let_def)
      then show ?thesis using Cons roots by auto
    qed
  qed
qed

theorem C10_witness:
  "identifyContact noFault clock0 tableOrder (Some ''c@x.com'') None store_orphan =
     (Inl TypeError, store_orphan)"
proof -
  have "findMany_match tableOrder 0 (Some ''c@x.com'') None store_orphan \<noteq> [] \<and>
      (\<forall>m\<in>set (findMany_match tableOrder 0 (Some ''c@x.com'') None store_orphan).
         \<forall>c\<in>set (rows store_orphan).
           deletedAt c = None \<longrightarrow> rootIdOf m \<noteq> Some (id_c c))"
    by code_simp
  then show ?thesis
    using C10_no_root_TypeError [of clock0 tableOrder "Some ''c@x.com''" None store_orphan] by blast
qed

theorem C10_counterexample:
  "wellFormed store_mixed \<and>
   \<not> (\<forall>m\<in>set (findMany_match tableOrder 0 (Some ''c@x.com'') (Some ''333'') store_mixed).
        \<exists>c\<in>set (rows store_mixed). deletedAt c = None \<and> rootIdOf m = Some (id_c c)) \<and>
   fst (identifyContact noFault clock0 tableOrder (Some ''c@x.com'') (Some ''333'') store_mixed) =
     Inr \<lparr>primaryContatctId = 3, emails = [''e@x.com'', ''c@x.com''],
          phoneNumbers = [''333''], secondaryContactIds = [4]\<rparr>"
  by code_simp

section \<open>Link depth\<close>

lemma mergedStore_Cons:
  "primaryContacts pos em ph s = tp # ps \<Longrightarrow>
   mergedStore clk pos em ph s = onRows (mergeRow clk 2 (id_c tp) ps) s"
  by (simp add: mergedStore_def mergeLoop_noFault)

lemma rows_identify_match:
  assumes "primaryContacts pos em ph s = tp # ps"
  shows "\<exists>new. rows (snd (identifyContact noFault clk pos em ph s)) =
           map (mergeRow clk 2 (id_c tp) ps) (rows s) @ new \<and>
           (\<forall>c\<in>set new. linkedId c = Some (id_c tp) \<and> linkPrecedence c = Secondary \<and>
                id_c c = nextId s \<and> deletedAt c = None)"
  by (simp add: identify_noFault_match[OF assms] Let_def)

text \<open>
  C2. After a call of \<^verbatim>\<open>identifyContact\<close> on a store that satisfies the invariant and does
  not fail, every secondary that is not soft-deleted is linked to a row that is a primary.
  In particular a row that is not soft-deleted and was linked to a root \<open>B\<close> which the merge
  demotes is linked to the true primary afterwards. The bulk re-point selects on
  \<^verbatim>\<open>deletedAt: null\<close>: a soft-deleted secondary of \<open>B\<close> keeps its link to \<open>B\<close>, which is
  the counterexample to the statement about every secondary.
\<close>

theorem C2_live_secondaries_link_to_primaries:
  assumes "wellFormed s" and "identifyContact noFault clk pos em ph s = (res, s')"
  shows "(\<forall>c\<in>set (rows s'). linkPrecedence c = Secondary \<and> deletedAt c = None \<longrightarrow>
            (\<exists>p\<in>set (rows s'). linkPrecedence p = Primary \<and> linkedId c = Some (id_c p))) \<and>
         (\<forall>tp ps. primaryContacts pos em ph s = tp # ps \<longrightarrow>
            (\<forall>c\<in>set (rows s). deletedAt c = None \<and> linkedId c \<in> Some ` id_c ` set ps \<longrightarrow>
               (\<exists>c'\<in>set (rows s'). id_c c' = id_c c \<and> linkedId c' = Some (id_c tp))))"
proof (intro conjI allI impI ballI)
  have s': "s' = snd (identifyContact noFault clk pos em ph s)" using assms(2) by simp
  have wf': "wellFormed s'" unfolding s' using assms(1) by (rule wellFormed_identify)
  show "\<exists>p\<in>set (rows s'). linkPrecedence p = Primary \<and> linkedId c = Some (id_c p)"
    if "c \<in> set (rows s')" "linkPrecedence c = Secondary \<and> deletedAt c = None" for c
    using wellFormedD(5)[OF wf' that(1)] that(2) by simp
  show "\<exists>c'\<in>set (rows s'). id_c c' = id_c c \<and> linkedId c' = Some (id_c tp)"
    if r: "primaryContacts pos em ph s = tp # ps" and c: "c \<in> set (rows s)"
      and l: "deletedAt c = None \<and> linkedId c \<in> Some ` id_c ` set ps" for tp ps c
  proof -
    let ?c' = "mergeRow clk 2 (id_c tp) ps c"
    from rows_identify_match[OF r, where clk=clk] c have "?c' \<in> set (rows s')"
      unfolding s' by auto
    moreover have "id_c ?c' = id_c c" by simp
    moreover have "linkedId ?c' = Some (id_c tp)" using l by (simp add: mergeRow_linkedId)
    ultimately show ?thesis by blast
  qed
qed

theorem C2_witness:
  "wellFormed store_ABC \<and>
   identifyContact noFault clock0 tableOrder (Some ''a@x.com'') (Some ''222'') store_ABC =
     (Inr \<lparr>primaryContatctId = 1, emails = [''a@x.com'', ''b@x.com'', ''c@x.com''],
            phoneNumbers = [''111'', ''222''], secondaryContactIds = [2, 3]\<rparr>,
      \<lparr>rows = [mkContact 1 ''a@x.com'' ''111'' None Primary 10 None,
               (mkContact 2 ''b@x.com'' ''222'' (Some 1) Secondary 20 None)\<lparr>updatedAt := 102\<rparr>,
               mkContact 3 ''c@x.com'' ''222'' (Some 1) Secondary 30 None],
       nextId = 4\<rparr>) \<and>
   (\<exists>c'\<in>set (rows (snd (identifyContact noFault clock0 tableOrder (Some ''a@x.com'') (Some ''222'') store_ABC))).
       id_c c' = 3 \<and> linkedId c' = Some 1)"
proof -
  have wf: "wellFormed store_ABC" by code_simp
  have run: "identifyContact noFault clock0 tableOrder (Some ''a@x.com'') (Some ''222'') store_ABC =
     (Inr \<lparr>primaryContatctId = 1, emails = [''a@x.com'', ''b@x.com'', ''c@x.com''],
            phoneNumbers = [''111'', ''222''], secondaryContactIds = [2, 3]\<rparr>,
      \<lparr>rows = [mkContact 1 ''a@x.com'' ''111'' None Primary 10 None,
               (mkContact 2 ''b@x.com'' ''222'' (Some 1) Secondary 20 None)\<lparr>updatedAt := 102\<rparr>,
               mkContact 3 ''c@x.com'' ''222'' (Some 1) Secondary 30 None],
       nextId = 4\<rparr>)"
    by code_simp
  have roots: "primaryContacts tableOrder (Some ''a@x.com'') (Some ''222'') store_ABC =
      [mkContact 1 ''a@x.com'' ''111'' None Primary 10 None,
       mkContact 2 ''b@x.com'' ''222'' None Primary 20 None]"
    by code_simp
  have c: "mkContact 3 ''c@x.com'' ''222'' (Some 2) Secondary 30 None \<in> set (rows store_ABC)"
    by (simp add: store_ABC_def)
  from C2_live_secondaries_link_to_primaries [OF wf run] roots c
  have "\<exists>c'\<in>set (rows (snd (identifyContact noFault clock0 tableOrder (Some ''a@x.com'') (Some ''222'') store_ABC))).
       id_c c' = id_c (mkContact 3 ''c@x.com'' ''222'' (Some 2) Secondary 30 None) \<and> linkedId c' = Some (id_c (mkContact 1 ''a@x.com'' ''111'' None Primary 10 None))"
    unfolding run by (force simp: mkContact_def)
  then show ?thesis using wf run by (simp add: mkContact_def)
qed

theorem C2_counterexample:
  "wellFormed store_ABC_deleted \<and>
   fst (identifyContact noFault clock0 tableOrder (Some ''a@x.com'') (Some ''222'') store_ABC_deleted) =
     Inr \<lparr>primaryContatctId = 1, emails = [''a@x.com'', ''b@x.com''],
          phoneNumbers = [''111'', ''222''], secondaryContactIds = [2]\<rparr> \<and>
   \<not> (\<forall>c\<in>set (rows (snd (identifyContact noFault clock0 tableOrder (Some ''a@x.com'') (Some ''222'')
                             store_ABC_deleted))).
         linkPrecedence c = Secondary \<longrightarrow>
           (\<exists>p\<in>set (rows (snd (identifyContact noFault clock0 tableOrder (Some ''a@x.com'') (Some ''222'')
                                  store_ABC_deleted))).
               linkPrecedence p = Primary \<and> linkedId c = Some (id_c p)))"
  by code_simp

section \<open>The oldest root wins\<close>

lemma roots_semantic:
  assumes wf: "wellFormed s"
  shows "set (primaryContacts pos em ph s) =
           {c \<in> set (rows s). deletedAt c = None \<and> linkPrecedence c = Primary \<and>
              (\<exists>m\<in>set (rows s). matching em ph m \<and>
                  (m = c \<or> linkedId m = Some (id_c c) \<and> id_c c \<noteq> 0))}"
    (is "?L = ?R")
proof (intro set_eqI iffI)
  fix c assume c: "c \<in> ?L"
  from root_is_primary[OF wf c] have cr: "c \<in> set (rows s)" "linkPrecedence c = Primary"
    "deletedAt c = None" by simp_all
  from c obtain m where m: "m \<in> set (findMany_match pos 0 em ph s)" "rootIdOf m = Some (id_c c)"
    unfolding set_primaryContacts by blast
  then have mr: "m \<in> set (rows s)" and mm: "matching em ph m"
    unfolding set_findMany_match matching_def by simp_all
  have "m = c \<or> linkedId m = Some (id_c c) \<and> id_c c \<noteq> 0"
  proof (cases "linkPrecedence m")
    case Primary
    with m(2) have "id_c m = id_c c" by (simp add: rootIdOf_def)
    with id_c_inj[OF wellFormedD(1)[OF wf] mr cr(1)] show ?thesis by simp
  next
    case Secondary
    with m(2) show ?thesis by (auto simp: rootIdOf_def split: option.splits if_splits)
  qed
  with cr mr mm show "c \<in> ?R" by blast
next
  fix c assume "c \<in> ?R"
  then obtain m where cr: "c \<in> set (rows s)" "deletedAt c = None" "linkPrecedence c = Primary"
    and mr: "m \<in> set (rows s)" and mm: "matching em ph m"
    and l: "m = c \<or> linkedId m = Some (id_c c) \<and> id_c c \<noteq> 0" by blast
  from mr mm have m: "m \<in> set (findMany_match pos 0 em ph s)"
    unfolding set_findMany_match matching_def by simp
  have "rootIdOf m = Some (id_c c)"
  proof (cases "m = c")
    case True
    with cr(3) show ?thesis by (simp add: rootIdOf_def)
  next
    case False
    with l have lk: "linkedId m = Some (id_c c)" "id_c c \<noteq> 0" by simp_all
    with wellFormedD(4)[OF wf mr] have "linkPrecedence m \<noteq> Primary" by auto
    with lk show ?thesis by (simp add: rootIdOf_def)
  qed
  with cr m show "c \<in> ?L" unfolding set_primaryContacts by blast
qed

lemma roots_sorted:
  assumes "primaryContacts pos em ph s = tp # ps"
  shows "\<forall>q\<in>set ps. createdAt tp \<le> createdAt q"
proof -
  have "sorted (map createdAt (primaryContacts pos em ph s))"
    unfolding primaryContacts_def findMany_ids_def by simp
  with assms show ?thesis by simp
qed

text \<open>
  C1. On a store that satisfies the invariant and does not fail, the roots \<open>tp # ps\<close> of a
  request are the primaries, not soft-deleted, that a matching row is or is linked to
  (there are two or more when \<open>ps\<close> is not empty). The true primary \<open>tp\<close> has the
  earliest \<^verbatim>\<open>createdAt\<close> of the roots; which one it is among roots with that same
  \<^verbatim>\<open>createdAt\<close> is the store's choice, since \<^verbatim>\<open>createdAt\<close> is the only sort key of the
  query. It stays a primary, every other root becomes a secondary linked to it, and the
  response's \<^verbatim>\<open>primaryContatctId\<close> is its id. Ties are not broken by ascending id: in
  the counterexample two primaries have the same \<^verbatim>\<open>createdAt\<close>, the store returns id 2
  before id 1, and id 2 is the true primary.
\<close>

theorem C1_oldest_root_wins:
  assumes "wellFormed s" and "primaryContacts pos em ph s = tp # ps"
    and "identifyContact noFault clk pos em ph s = (res, s')"
  shows "set (tp # ps) =
           {c \<in> set (rows s). deletedAt c = None \<and> linkPrecedence c = Primary \<and>
              (\<exists>m\<in>set (rows s). matching em ph m \<and>
                  (m = c \<or> linkedId m = Some (id_c c) \<and> id_c c \<noteq> 0))} \<and>
         (\<forall>q\<in>set ps. createdAt tp \<le> createdAt q) \<and>
         (\<exists>r. res = Inr r \<and> primaryContatctId r = id_c tp) \<and>
         tp \<in> set (rows s') \<and> linkPrecedence tp = Primary \<and>
         (\<forall>q\<in>set ps. linkPrecedence q = Primary \<and>
             (\<exists>c\<in>set (rows s'). id_c c = id_c q \<and> linkPrecedence c = Secondary \<and>
                 linkedId c = Some (id_c tp)))"
proof (intro conjI ballI)
  note wf = assms(1) and r = assms(2)
  have s': "s' = snd (identifyContact noFault clk pos em ph s)"
    and res: "res = fst (identifyContact noFault clk pos em ph s)" using assms(3) by simp_all
  from rows_identify_match[OF r, where clk=clk] obtain new where
    rows': "rows s' = map (mergeRow clk 2 (id_c tp) ps) (rows s) @ new" unfolding s' by blast
  show "createdAt tp \<le> createdAt q" if "q \<in> set ps" for q
    using roots_sorted[OF r] that by blast
  show "set (tp # ps) =
           {c \<in> set (rows s). deletedAt c = None \<and> linkPrecedence c = Primary \<and>
              (\<exists>m\<in>set (rows s). matching em ph m \<and>
                  (m = c \<or> linkedId m = Some (id_c c) \<and> id_c c \<noteq> 0))}"
    using roots_semantic[OF wf, of pos em ph] r by simp
  show "\<exists>r. res = Inr r \<and> primaryContatctId r = id_c tp"
    unfolding res by (simp add: identify_noFault_match[OF r] Let_def buildResponse_def)
  show "tp \<in> set (rows s')"
  proof -
    have "mergeRow clk 2 (id_c tp) ps tp \<in> set (rows s')"
      unfolding rows' using roots_Cons(1)[OF wf r] by simp
    then show ?thesis by (simp add: truePrimary_unchanged[OF wf r])
  qed
  show "linkPrecedence tp = Primary" using roots_Cons(2)[OF wf r] .
  show "linkPrecedence q = Primary" if "q \<in> set ps" for q
    using roots_Cons(6)[OF wf r] that by blast
  show "\<exists>c\<in>set (rows s'). id_c c = id_c q \<and> linkPrecedence c = Secondary \<and>
                 linkedId c = Some (id_c tp)" if q: "q \<in> set ps" for q
  proof -
    let ?c = "mergeRow clk 2 (id_c tp) ps q"
    have "q \<in> set (rows s)" using roots_Cons(6)[OF wf r] q by blast
    then have "?c \<in> set (rows s')" unfolding rows' by simp
    moreover have "id_c ?c = id_c q" by simp
    moreover have "linkPrecedence ?c = Secondary" using q by (simp add: mergeRow_linkPrecedence)
    moreover have "linkedId ?c = Some (id_c tp)" using q by (simp add: mergeRow_linkedId)
    ultimately show ?thesis by blast
  qed
qed

theorem C1_witness:
  "wellFormed store_ABC \<and>
   primaryContacts tableOrder (Some ''a@x.com'') (Some ''222'') store_ABC =
      [mkContact 1 ''a@x.com'' ''111'' None Primary 10 None,
       mkContact 2 ''b@x.com'' ''222'' None Primary 20 None] \<and>
   fst (identifyContact noFault clock0 tableOrder (Some ''a@x.com'') (Some ''222'') store_ABC) =
     Inr \<lparr>primaryContatctId = 1, emails = [''a@x.com'', ''b@x.com'', ''c@x.com''],
            phoneNumbers = [''111'', ''222''], secondaryContactIds = [2, 3]\<rparr> \<and>
   (\<exists>c\<in>set (rows (snd (identifyContact noFault clock0 tableOrder (Some ''a@x.com'') (Some ''222'') store_ABC))).
       id_c c = 2 \<and> linkPrecedence c = Secondary \<and> linkedId c = Some 1)"
proof -
  let ?A = "mkContact 1 ''a@x.com'' ''111'' None Primary 10 None"
  let ?B = "mkContact 2 ''b@x.com'' ''222'' None Primary 20 None"
  let ?run = "identifyContact noFault clock0 tableOrder (Some ''a@x.com'') (Some ''222'') store_ABC"
  have wf: "wellFormed store_ABC" by code_simp
  have roots: "primaryContacts tableOrder (Some ''a@x.com'') (Some ''222'') store_ABC = [?A, ?B]"
    by code_simp
  have run: "?run = (fst ?run, snd ?run)" by simp
  have res: "fst ?run =
     Inr \<lparr>primaryContatctId = 1, emails = [''a@x.com'', ''b@x.com'', ''c@x.com''],
            phoneNumbers = [''111'', ''222''], secondaryContactIds = [2, 3]\<rparr>"
    by code_simp
  from C1_oldest_root_wins [OF wf roots run]
  have "\<exists>c\<in>set (rows (snd ?run)). id_c c = id_c ?B \<and> linkPrecedence c = Secondary \<and>
          linkedId c = Some (id_c ?A)"
    by simp
  then show ?thesis using wf roots res by (simp add: mkContact_def)
qed

theorem C1_counterexample:
  "wellFormed store_tie \<and>
   map id_c (primaryContacts tableOrder (Some ''a@x.com'') (Some ''222'') store_tie) = [2, 1] \<and>
   map createdAt (primaryContacts tableOrder (Some ''a@x.com'') (Some ''222'') store_tie) = [10, 10] \<and>
   identifyContact noFault clock0 tableOrder (Some ''a@x.com'') (Some ''222'') store_tie =
     (Inr \<lparr>primaryContatctId = 2, emails = [''b@x.com'', ''a@x.com''],
            phoneNumbers = [''222'', ''111''], secondaryContactIds = [1]\<rparr>,
      \<lparr>rows = [mkContact 2 ''b@x.com'' ''222'' None Primary 10 None,
               (mkContact 1 ''a@x.com'' ''111'' (Some 2) Secondary 10 None)\<lparr>updatedAt := 102\<rparr>],
       nextId = 3\<rparr>)"
  by code_simp

section \<open>New information\<close>

lemma isNewEmail_iff:
  "isNewEmail em cs \<longleftrightarrow> truthy em \<and> em \<notin> email ` set cs"
  by (cases em) (auto simp: isNewEmail_def allEmails_def truthy_def image_iff split: option.splits)

lemma isNewPhone_iff:
  "isNewPhone ph cs \<longleftrightarrow> truthy ph \<and> ph \<notin> phoneNumber ` set cs"
  by (cases ph) (auto simp: isNewPhone_def allPhones_def truthy_def image_iff split: option.splits)

lemma linked_after_merge:
  "linkedId (mergeRow clk k tid ps c) = Some tid \<and> deletedAt (mergeRow clk k tid ps c) = None \<longleftrightarrow>
     deletedAt c = None \<and>
     (id_c c \<in> id_c ` set ps \<or> linkedId c \<in> Some ` id_c ` set ps \<or> linkedId c = Some tid)"
  by (auto simp: mergeRow_linkedId)

lemma roots_are_their_ids:
  assumes wf: "wellFormed s" and r: "primaryContacts pos em ph s = tp # ps"
  shows "set ps = {c \<in> set (rows s). deletedAt c = None \<and> id_c c \<in> id_c ` set ps}"
proof (intro set_eqI iffI)
  note R = roots_Cons[OF wf r]
  fix c assume "c \<in> set ps"
  with R(6) show "c \<in> {c \<in> set (rows s). deletedAt c = None \<and> id_c c \<in> id_c ` set ps}"
    by blast
next
  note R = roots_Cons[OF wf r]
  fix c assume "c \<in> {c \<in> set (rows s). deletedAt c = None \<and> id_c c \<in> id_c ` set ps}"
  then obtain p where c: "c \<in> set (rows s)" and p: "p \<in> set ps" "id_c p = id_c c" by auto
  with R(6) have "p \<in> set (rows s)" by blast
  from id_c_inj[OF wellFormedD(1)[OF wf] this c p(2)] p(1) show "c \<in> set ps" by simp
qed

lemma set_resolvedGroup:
  assumes wf: "wellFormed s" and r: "primaryContacts pos em ph s = tp # ps"
  shows "set (resolvedGroup (tp # ps) s) =
           insert tp {c \<in> set (rows s). deletedAt c = None \<and>
              (id_c c \<in> id_c ` set ps \<or> linkedId c \<in> Some ` id_c ` set ps \<or>
               linkedId c = Some (id_c tp))}"
proof -
  have "set (resolvedGroup (tp # ps) s) =
      insert tp (set ps \<union> {c \<in> set (rows s). deletedAt c = None \<and>
              (linkedId c \<in> Some ` id_c ` set ps \<or> linkedId c = Some (id_c tp))})"
    unfolding resolvedGroup_def by (simp add: Un_def) blast
  also have "\<dots> = insert tp ({c \<in> set (rows s). deletedAt c = None \<and> id_c c \<in> id_c ` set ps} \<union>
              {c \<in> set (rows s). deletedAt c = None \<and>
              (linkedId c \<in> Some ` id_c ` set ps \<or> linkedId c = Some (id_c tp))})"
    using roots_are_their_ids[OF wf r] by simp
  also have "\<dots> = insert tp {c \<in> set (rows s). deletedAt c = None \<and>
              (id_c c \<in> id_c ` set ps \<or> linkedId c \<in> Some ` id_c ` set ps \<or>
               linkedId c = Some (id_c tp))}"
    by blast
  finally show ?thesis .
qed

lemma set_linked_after_merge:
  "set (findMany_linked pos' k tid (onRows (mergeRow clk j tid ps) s)) =
     mergeRow clk j tid ps ` {c \<in> set (rows s). deletedAt c = None \<and>
              (id_c c \<in> id_c ` set ps \<or> linkedId c \<in> Some ` id_c ` set ps \<or>
               linkedId c = Some tid)}"
proof -
  have "{c \<in> mergeRow clk j tid ps ` set (rows s). linkedId c = Some tid \<and> deletedAt c = None} =
        mergeRow clk j tid ps ` {c \<in> set (rows s).
           linkedId (mergeRow clk j tid ps c) = Some tid \<and> deletedAt (mergeRow clk j tid ps c) = None}"
    by (auto simp del: mergeRow_same)
  then show ?thesis
    unfolding set_findMany_linked by (simp only: rows_onRows set_map linked_after_merge)
qed

lemma group_after_merge:
  assumes wf: "wellFormed s" and r: "primaryContacts pos em ph s = tp # ps"
  shows "email ` set (tp # findMany_linked pos' k (id_c tp) (onRows (mergeRow clk j (id_c tp) ps) s)) =
           email ` set (resolvedGroup (tp # ps) s)"
    and "phoneNumber ` set (tp # findMany_linked pos' k (id_c tp) (onRows (mergeRow clk j (id_c tp) ps) s)) =
           phoneNumber ` set (resolvedGroup (tp # ps) s)"
  unfolding set_resolvedGroup[OF wf r] list.set set_linked_after_merge image_insert image_image
  by simp_all

text \<open>
  C4. On a store that satisfies the invariant and does not fail, when a matching row
  resolves to a root (the roots are \<open>tp # ps\<close>, so a true primary exists),
  \<^verbatim>\<open>identifyContact\<close> adds exactly one row, a secondary with the given email and phone
  number linked to the true primary, if and only if the email is present and no member
  of the resolved group has it, or the phone number is present and no member of the group
  has it; otherwise it adds no row. No other row is added or removed. Present means
  truthy: not null and not the empty string. The group is stated over the table before
  the call: the roots and the rows, not soft-deleted, linked to a root. Without a root the
  call throws and adds nothing, although a row matches: the counterexample is the
  secondary of a soft-deleted primary, asked for with a phone number that no row has.
\<close>

theorem C4_secondary_iff_new_information:
  assumes "wellFormed s" and "primaryContacts pos em ph s = tp # ps"
    and "identifyContact noFault clk pos em ph s = (res, s')"
  shows "map id_c (rows s') =
           map id_c (rows s) @
           (if (truthy em \<and> em \<notin> email ` set (resolvedGroup (tp # ps) s)) \<or>
               (truthy ph \<and> ph \<notin> phoneNumber ` set (resolvedGroup (tp # ps) s))
            then [nextId s] else []) \<and>
         ((truthy em \<and> em \<notin> email ` set (resolvedGroup (tp # ps) s)) \<or>
          (truthy ph \<and> ph \<notin> phoneNumber ` set (resolvedGroup (tp # ps) s)) \<longrightarrow>
            email (last (rows s')) = em \<and> phoneNumber (last (rows s')) = ph \<and>
            linkedId (last (rows s')) = Some (id_c tp) \<and>
            linkPrecedence (last (rows s')) = Secondary \<and> deletedAt (last (rows s')) = None)"
proof -
  let ?sm = "onRows (mergeRow clk 2 (id_c tp) ps) s"
  let ?secs = "findMany_linked pos (2 + 2 * length ps) (id_c tp) ?sm"
  let ?new = "(truthy em \<and> em \<notin> email ` set (resolvedGroup (tp # ps) s)) \<or>
              (truthy ph \<and> ph \<notin> phoneNumber ` set (resolvedGroup (tp # ps) s))"
  have s': "s' = snd (identifyContact noFault clk pos em ph s)" using assms(3) by simp
  have e: "isNewEmail em (tp # ?secs) \<longleftrightarrow>
             truthy em \<and> em \<notin> email ` set (resolvedGroup (tp # ps) s)"
    unfolding isNewEmail_iff group_after_merge(1)[OF assms(1,2)] ..
  have q: "isNewPhone ph (tp # ?secs) \<longleftrightarrow>
             truthy ph \<and> ph \<notin> phoneNumber ` set (resolvedGroup (tp # ps) s)"
    unfolding isNewPhone_iff group_after_merge(2)[OF assms(1,2)] ..
  show ?thesis
  proof (cases ?new)
    case True
    then have "isNewEmail em (tp # ?secs) \<or> isNewPhone ph (tp # ?secs)" using e q by blast
    then have "rows s' = map (mergeRow clk 2 (id_c tp) ps) (rows s) @
        [\<lparr>id_c = nextId s, email = em, phoneNumber = ph, linkedId = Some (id_c tp),
          linkPrecedence = Secondary, createdAt = clk (2 + 2 * length ps + 1),
          updatedAt = clk (2 + 2 * length ps + 1), deletedAt = None\<rparr>]"
      unfolding s' by (simp add: identify_noFault_match[OF assms(2)] Let_def)
    with True show ?thesis by (simp add: comp_def)
  next
    case False
    then have "\<not> (isNewEmail em (tp # ?secs) \<or> isNewPhone ph (tp # ?secs))" using e q by blast
    then have "rows s' = map (mergeRow clk 2 (id_c tp) ps) (rows s)"
      unfolding s' by (simp add: identify_noFault_match[OF assms(2)] Let_def)
    with False show ?thesis by (auto simp: comp_def)
  qed
qed

theorem C4_witness:
  "wellFormed store_ABC \<and>
   primaryContacts tableOrder (Some ''new@x.com'') (Some ''222'') store_ABC =
     [mkContact 2 ''b@x.com'' ''222'' None Primary 20 None] \<and>
   truthy (Some ''new@x.com'') \<and>
   Some ''new@x.com'' \<notin>
     email ` set (resolvedGroup [mkContact 2 ''b@x.com'' ''222'' None Primary 20 None] store_ABC) \<and>
   identifyContact noFault clock0 tableOrder (Some ''new@x.com'') (Some ''222'') store_ABC =
     (Inr \<lparr>primaryContatctId = 2, emails = [''b@x.com'', ''c@x.com'', ''new@x.com''],
            phoneNumbers = [''222''], secondaryContactIds = [3, 4]\<rparr>,
      \<lparr>rows = rows store_ABC @
               [\<lparr>id_c = 4, email = Some ''new@x.com'', phoneNumber = Some ''222'',
                 linkedId = Some 2, linkPrecedence = Secondary,
                 createdAt = 103, updatedAt = 103, deletedAt = None\<rparr>],
        nextId = 5\<rparr>) \<and>
   primaryContacts tableOrder (Some ''c@x.com'') (Some ''222'') store_ABC =
     [mkContact 2 ''b@x.com'' ''222'' None Primary 20 None] \<and>
   Some ''c@x.com'' \<in>
     email ` set (resolvedGroup [mkContact 2 ''b@x.com'' ''222'' None Primary 20 None] store_ABC) \<and>
   Some ''222'' \<in>
     phoneNumber ` set (resolvedGroup [mkContact 2 ''b@x.com'' ''222'' None Primary 20 None] store_ABC) \<and>
   identifyContact noFault clock0 tableOrder (Some ''c@x.com'') (Some ''222'') store_ABC =
     (Inr \<lparr>primaryContatctId = 2, emails = [''b@x.com'', ''c@x.com''],
            phoneNumbers = [''222''], secondaryContactIds = [3]\<rparr>,
      store_ABC) \<and>
   map id_c (rows (snd (identifyContact noFault clock0 tableOrder (Some ''new@x.com'')
                          (Some ''222'') store_ABC))) = [1, 2, 3, 4] \<and>
   map id_c (rows (snd (identifyContact noFault clock0 tableOrder (Some ''c@x.com'')
                          (Some ''222'') store_ABC))) = [1, 2, 3]"
proof -
  let ?B = "mkContact 2 ''b@x.com'' ''222'' None Primary 20 None"
  let ?run1 = "identifyContact noFault clock0 tableOrder (Some ''new@x.com'') (Some ''222'') store_ABC"
  let ?run2 = "identifyContact noFault clock0 tableOrder (Some ''c@x.com'') (Some ''222'') store_ABC"
  have wf: "wellFormed store_ABC" by code_simp
  have roots1: "primaryContacts tableOrder (Some ''new@x.com'') (Some ''222'') store_ABC = [?B]"
    and roots2: "primaryContacts tableOrder (Some ''c@x.com'') (Some ''222'') store_ABC = [?B]"
    by code_simp+
  have new: "truthy (Some ''new@x.com'')"
    "Some ''new@x.com'' \<notin> email ` set (resolvedGroup [?B] store_ABC)"
    by (simp_all add: truthy_def resolvedGroup_def store_ABC_def mkContact_def)
  have old: "Some ''c@x.com'' \<in> email ` set (resolvedGroup [?B] store_ABC)"
    "Some ''222'' \<in> phoneNumber ` set (resolvedGroup [?B] store_ABC)"
    by (simp_all add: resolvedGroup_def store_ABC_def mkContact_def)
  have ids: "map id_c (rows store_ABC) = [1, 2, 3]" "nextId store_ABC = 4"
    by code_simp+
  have val1: "?run1 =
     (Inr \<lparr>primaryContatctId = 2, emails = [''b@x.com'', ''c@x.com'', ''new@x.com''],
            phoneNumbers = [''222''], secondaryContactIds = [3, 4]\<rparr>,
      \<lparr>rows = rows store_ABC @
               [\<lparr>id_c = 4, email = Some ''new@x.com'', phoneNumber = Some ''222'',
                 linkedId = Some 2, linkPrecedence = Secondary,
                 createdAt = 103, updatedAt = 103, deletedAt = None\<rparr>],
        nextId = 5\<rparr>)"
    by code_simp
  have val2: "?run2 =
     (Inr \<lparr>primaryContatctId = 2, emails = [''b@x.com'', ''c@x.com''],
            phoneNumbers = [''222''], secondaryContactIds = [3]\<rparr>,
      store_ABC)"
    by code_simp
  have run1: "?run1 = (fst ?run1, snd ?run1)" and run2: "?run2 = (fst ?run2, snd ?run2)"
    by simp_all
  from C4_secondary_iff_new_information [OF wf roots1 run1] new ids
  have a: "map id_c (rows (snd ?run1)) = [1, 2, 3, 4]" by simp
  from C4_secondary_iff_new_information [OF wf roots2 run2] old ids
  have b: "map id_c (rows (snd ?run2)) = [1, 2, 3]" by simp
  from wf roots1 new val1 roots2 old val2 a b show ?thesis by blast
qed

theorem C4_counterexample:
  "findMany_match tableOrder 0 (Some ''c@x.com'') (Some ''999'') store_orphan \<noteq> [] \<and>
   truthy (Some ''999'') \<and> Some ''999'' \<notin> phoneNumber ` set (rows store_orphan) \<and>
   identifyContact noFault clock0 tableOrder (Some ''c@x.com'') (Some ''999'') store_orphan =
     (Inl TypeError, store_orphan)"
proof -
  have "findMany_match tableOrder 0 (Some ''c@x.com'') (Some ''999'') store_orphan \<noteq> []"
    by code_simp
  moreover have "truthy (Some ''999'')" by code_simp
  moreover have "Some ''999'' \<notin> phoneNumber ` set (rows store_orphan)"
    by (simp add: store_orphan_def mkContact_def)
  moreover have
    "identifyContact noFault clock0 tableOrder (Some ''c@x.com'') (Some ''999'') store_orphan =
       (Inl TypeError, store_orphan)"
    by code_simp
  ultimately show ?thesis by blast
qed

section \<open>The secondaries of the response\<close>

lemma linkedTo_append [simp]: "linkedTo i (xs @ ys) = linkedTo i xs @ linkedTo i ys"
  by (simp add: linkedTo_def)

lemma linkedTo_fresh:
  assumes "wellFormed s"
  shows "linkedTo (nextId s) (rows s) = []"
proof -
  have "linkedId c \<noteq> Some (nextId s)" if "c \<in> set (rows s)" for c
    using wellFormedD(3)[OF assms that, of "nextId s"] by auto
  then show ?thesis by (auto simp: linkedTo_def filter_empty_conv)
qed

lemma linkedTo_secondary:
  assumes "wellFormed s" "c \<in> set (linkedTo i (rows s))"
  shows "linkPrecedence c = Secondary"
proof -
  from assms(2) have c: "c \<in> set (rows s)" "linkedId c = Some i"
    by (simp_all add: linkedTo_def)
  with wellFormedD(4)[OF assms(1) c(1)] show ?thesis by (cases "linkPrecedence c") simp_all
qed

lemma distinct_linkedTo_ids:
  assumes "wellFormed s"
  shows "distinct (map id_c (linkedTo i (rows s)))"
  unfolding linkedTo_def using wellFormedD(1)[OF assms] by (rule distinct_map_filter)

text \<open>
  Every response is built from a primary of the final table and, in some order, the rows
  of the final table that are linked to it and not soft-deleted.
\<close>

lemma response_from_final_store:
  assumes "wellFormed s" and "identifyContact noFault clk pos em ph s = (Inr r, s')"
  shows "\<exists>p ss. p \<in> set (rows s') \<and> linkPrecedence p = Primary \<and> r = buildResponse p ss \<and>
           mset ss = mset (linkedTo (id_c p) (rows s'))"
proof -
  have s': "s' = snd (identifyContact noFault clk pos em ph s)"
    and r: "Inr r = fst (identifyContact noFault clk pos em ph s)" using assms(2) by simp_all
  show ?thesis
  proof (cases "primaryContacts pos em ph s")
    case Nil
    show ?thesis
    proof (cases "findMany_match pos 0 em ph s = []")
      case True
      let ?c = "\<lparr>id_c = nextId s, email = em, phoneNumber = ph, linkedId = None,
               linkPrecedence = Primary, createdAt = clk 1, updatedAt = clk 1, deletedAt = None\<rparr>"
      from True r s' have rr: "r = buildResponse ?c []"
        and ss: "rows s' = rows s @ [?c]"
        by (simp_all add: identify_noFault_nomatch Let_def)
      have "linkedTo (id_c ?c) (rows s') = []"
        unfolding ss using linkedTo_fresh[OF assms(1)] by (simp add: linkedTo_def)
      then have "mset [] = mset (linkedTo (id_c ?c) (rows s'))" by simp
      moreover have "?c \<in> set (rows s')" "linkPrecedence ?c = Primary" unfolding ss by simp_all
      ultimately show ?thesis using rr by blast
    next
      case False
      with Nil have "identifyContact noFault clk pos em ph s = (Inl TypeError, s)"
        by (simp add: identifyContact_def primaryContacts_def)
      with assms(2) show ?thesis by simp
    qed
  next
    case (Cons tp ps)
    let ?sm = "onRows (mergeRow clk 2 (id_c tp) ps) s"
    let ?secs = "findMany_linked pos (2 + 2 * length ps) (id_c tp) ?sm"
    let ?c = "\<lparr>id_c = nextId s, email = em, phoneNumber = ph, linkedId = Some (id_c tp),
               linkPrecedence = Secondary, createdAt = clk (2 + 2 * length ps + 1),
               updatedAt = clk (2 + 2 * length ps + 1), deletedAt = None\<rparr>"
    from rows_identify_match[OF Cons, where clk=clk] obtain new where
      rows': "rows s' = map (mergeRow clk 2 (id_c tp) ps) (rows s) @ new" unfolding s' by blast
    have "mergeRow clk 2 (id_c tp) ps tp \<in> set (rows s')"
      unfolding rows' using roots_Cons(1)[OF assms(1) Cons] by simp
    then have tp: "tp \<in> set (rows s')" by (simp add: truePrimary_unchanged[OF assms(1) Cons])
    have "\<exists>ss. r = buildResponse tp ss \<and> mset ss = mset (linkedTo (id_c tp) (rows s'))"
    proof (cases "isNewEmail em (tp # ?secs) \<or> isNewPhone ph (tp # ?secs)")
      case True
      then have rr: "r = buildResponse tp (?secs @ [?c])" and ss: "rows s' = rows ?sm @ [?c]"
        using r s' by (simp_all add: identify_noFault_match[OF Cons] Let_def)
      have "mset (?secs @ [?c]) = mset (linkedTo (id_c tp) (rows s'))"
        unfolding ss by (simp add: mset_findMany_linked) (simp add: linkedTo_def)
      with rr show ?thesis by blast
    next
      case False
      then have rr: "r = buildResponse tp ?secs" and ss: "s' = ?sm"
        using r s' by (simp_all add: identify_noFault_match[OF Cons] Let_def)
      have "mset ?secs = mset (linkedTo (id_c tp) (rows s'))"
        unfolding ss by (simp add: mset_findMany_linked)
      with rr show ?thesis by blast
    qed
    with tp roots_Cons(2)[OF assms(1) Cons] show ?thesis by blast
  qed
qed

text \<open>
  C8. For every response on a store that satisfies the invariant and does not fail,
  \<^verbatim>\<open>secondaryContactIds\<close> lists, each once, the ids of the rows of the final table that are
  linked to the response's primary and are not soft-deleted; all of them are secondaries.
  Their order is the order in which the query of step 4 returned the rows linked to the
  true primary after the merge, an order the store chooses, followed by the id of the
  new secondary when one was added.
\<close>

theorem C8_secondary_ids:
  assumes "wellFormed s" and "identifyContact noFault clk pos em ph s = (Inr r, s')"
  shows "mset (secondaryContactIds r) =
           mset (map id_c (linkedTo (primaryContatctId r) (rows s'))) \<and>
         distinct (secondaryContactIds r) \<and>
         (\<forall>c\<in>set (linkedTo (primaryContatctId r) (rows s')). linkPrecedence c = Secondary) \<and>
         (\<forall>tp ps. primaryContacts pos em ph s = tp # ps \<longrightarrow>
            secondaryContactIds r =
              map id_c (findMany_linked pos (2 + 2 * length ps) (id_c tp)
                          (mergedStore clk pos em ph s)) @
              (if length (rows s) < length (rows s') then [nextId s] else []))"
proof (intro conjI allI impI)
  have s': "s' = snd (identifyContact noFault clk pos em ph s)"
    and r: "Inr r = fst (identifyContact noFault clk pos em ph s)" using assms(2) by simp_all
  have wf': "wellFormed s'" unfolding s' using assms(1) by (rule wellFormed_identify)
  from response_from_final_store[OF assms] obtain p ss where
    p: "r = buildResponse p ss" "mset ss = mset (linkedTo (id_c p) (rows s'))" by blast
  have ids: "secondaryContactIds r = map id_c ss" "primaryContatctId r = id_c p"
    unfolding p(1) by (simp_all add: buildResponse_def)
  show m: "mset (secondaryContactIds r) =
           mset (map id_c (linkedTo (primaryContatctId r) (rows s')))"
    unfolding ids using p(2) by (metis mset_map)
  show "distinct (secondaryContactIds r)"
    using distinct_linkedTo_ids[OF wf', of "primaryContatctId r"] m
    by (metis mset_eq_imp_distinct_iff)
  show "\<forall>c\<in>set (linkedTo (primaryContatctId r) (rows s')). linkPrecedence c = Secondary"
    using linkedTo_secondary[OF wf'] by blast
  fix tp ps assume roots: "primaryContacts pos em ph s = tp # ps"
  show "secondaryContactIds r =
              map id_c (findMany_linked pos (2 + 2 * length ps) (id_c tp)
                          (mergedStore clk pos em ph s)) @
              (if length (rows s) < length (rows s') then [nextId s] else [])"
  proof (cases "isNewEmail em (tp # findMany_linked pos (2 + 2 * length ps) (id_c tp)
                    (onRows (mergeRow clk 2 (id_c tp) ps) s)) \<or>
                isNewPhone ph (tp # findMany_linked pos (2 + 2 * length ps) (id_c tp)
                    (onRows (mergeRow clk 2 (id_c tp) ps) s))")
    case True
    then show ?thesis using r s'
      by (simp add: identify_noFault_match[OF roots] mergedStore_Cons[OF roots] Let_def
          buildResponse_def)
  next
    case False
    then show ?thesis using r s'
      by (simp add: identify_noFault_match[OF roots] mergedStore_Cons[OF roots] Let_def
          buildResponse_def)
  qed
qed

theorem C8_witness:
  "wellFormed store_ABC \<and>
   identifyContact noFault clock0 idDescending (Some ''a@x.com'') (Some ''222'') store_ABC =
     (Inr \<lparr>primaryContatctId = 1, emails = [''a@x.com'', ''c@x.com'', ''b@x.com''],
            phoneNumbers = [''111'', ''222''], secondaryContactIds = [3, 2]\<rparr>,
      \<lparr>rows = [mkContact 1 ''a@x.com'' ''111'' None Primary 10 None,
               (mkContact 2 ''b@x.com'' ''222'' (Some 1) Secondary 20 None)\<lparr>updatedAt := 102\<rparr>,
               mkContact 3 ''c@x.com'' ''222'' (Some 1) Secondary 30 None],
       nextId = 4\<rparr>) \<and>
   mset [3, 2] = mset (map id_c (linkedTo 1
      (rows (snd (identifyContact noFault clock0 idDescending (Some ''a@x.com'') (Some ''222'')
                    store_ABC)))))"
proof -
  have wf: "wellFormed store_ABC" by code_simp
  have run: "identifyContact noFault clock0 idDescending (Some ''a@x.com'') (Some ''222'') store_ABC =
     (Inr \<lparr>primaryContatctId = 1, emails = [''a@x.com'', ''c@x.com'', ''b@x.com''],
            phoneNumbers = [''111'', ''222''], secondaryContactIds = [3, 2]\<rparr>,
      \<lparr>rows = [mkContact 1 ''a@x.com'' ''111'' None Primary 10 None,
               (mkContact 2 ''b@x.com'' ''222'' (Some 1) Secondary 20 None)\<lparr>updatedAt := 102\<rparr>,
               mkContact 3 ''c@x.com'' ''222'' (Some 1) Secondary 30 None],
       nextId = 4\<rparr>)"
    by code_simp
  from C8_secondary_ids [OF wf run]
  have "mset [3, 2] = mset (map id_c (linkedTo 1
      (rows (snd (identifyContact noFault clock0 idDescending (Some ''a@x.com'') (Some ''222'')
                    store_ABC)))))"
    unfolding run by simp
  with wf run show ?thesis by blast
qed

section \<open>The lists of the response\<close>

lemma remdups_append_mem:
  "v \<in> set bs \<Longrightarrow> remdups (as @ v # bs) = remdups (as @ bs)"
  by (induction as) auto

lemma firstOccurrences_drop:
  "v \<in> set acc \<Longrightarrow> firstOccurrences (acc @ v # ys) = firstOccurrences (acc @ ys)"
  by (simp add: firstOccurrences_def remdups_append_mem)

lemma firstOccurrences_distinct:
  "distinct xs \<Longrightarrow> firstOccurrences xs = xs"
  by (simp add: firstOccurrences_def distinct_remdups_id)

lemma remdups_snoc:
  "remdups (ys @ [x]) = remdups (filter (\<lambda>y. y \<noteq> x) ys) @ [x]"
  by (induction ys) auto

lemma firstOccurrences_Cons:
  "firstOccurrences (x # xs) = x # rev (remdups (filter (\<lambda>y. y \<noteq> x) (rev xs)))"
  by (simp add: firstOccurrences_def remdups_snoc)

lemma distinct_firstOccurrences [simp]: "distinct (firstOccurrences xs)"
  and set_firstOccurrences [simp]: "set (firstOccurrences xs) = set xs"
  by (simp_all add: firstOccurrences_def)

lemma allEmails_Cons:
  "allEmails (c # cs) =
     (case email c of None \<Rightarrow> [] | Some v \<Rightarrow> if v \<noteq> [] then [v] else []) @ allEmails cs"
  and allPhones_Cons:
  "allPhones (c # cs) =
     (case phoneNumber c of None \<Rightarrow> [] | Some v \<Rightarrow> if v \<noteq> [] then [v] else []) @ allPhones cs"
  by (simp_all add: allEmails_def allPhones_def)

lemma allEmails_Nil [simp]: "allEmails [] = []" and allPhones_Nil [simp]: "allPhones [] = []"
  by (simp_all add: allEmails_def allPhones_def)

lemma empty_notin_all: "[] \<notin> set (allEmails cs)" "[] \<notin> set (allPhones cs)"
  by (auto simp: allEmails_def allPhones_def split: option.splits if_splits)

lemma pushEmails_firstOccurrences:
  "distinct acc \<Longrightarrow> pushEmails cs acc = firstOccurrences (acc @ allEmails cs)"
proof (induction cs arbitrary: acc)
  case Nil
  then show ?case by (simp add: firstOccurrences_distinct)
next
  case (Cons c cs)
  show ?case
  proof (cases "email c")
    case None
    with Cons show ?thesis by (simp add: allEmails_Cons)
  next
    case (Some v)
    show ?thesis
    proof (cases "v \<noteq> [] \<and> v \<notin> set acc")
      case True
      with Cons.prems have "distinct (acc @ [v])" by simp
      from Cons.IH[OF this] True Some show ?thesis by (simp add: allEmails_Cons)
    next
      case False
      with Cons Some show ?thesis
        by (auto simp: allEmails_Cons firstOccurrences_drop)
    qed
  qed
qed

lemma pushPhones_firstOccurrences:
  "distinct acc \<Longrightarrow> pushPhones cs acc = firstOccurrences (acc @ allPhones cs)"
proof (induction cs arbitrary: acc)
  case Nil
  then show ?case by (simp add: firstOccurrences_distinct)
next
  case (Cons c cs)
  show ?case
  proof (cases "phoneNumber c")
    case None
    with Cons show ?thesis by (simp add: allPhones_Cons)
  next
    case (Some v)
    show ?thesis
    proof (cases "v \<noteq> [] \<and> v \<notin> set acc")
      case True
      with Cons.prems have "distinct (acc @ [v])" by simp
      from Cons.IH[OF this] True Some show ?thesis by (simp add: allPhones_Cons)
    next
      case False
      with Cons Some show ?thesis
        by (auto simp: allPhones_Cons firstOccurrences_drop)
    qed
  qed
qed

lemma buildResponse_lists:
  "emails (buildResponse p ss) = firstOccurrences (allEmails (p # ss))"
  "phoneNumbers (buildResponse p ss) = firstOccurrences (allPhones (p # ss))"
  by (auto simp: buildResponse_def pushEmails_firstOccurrences pushPhones_firstOccurrences
      allEmails_Cons allPhones_Cons split: option.splits)

lemma result_is_buildResponse:
  "identifyContact fl clk pos em ph s = (Inr r, s') \<Longrightarrow> \<exists>p ss. r = buildResponse p ss"
  by (auto simp: identifyContact_def Let_def contact_create_def
      split: if_splits list.splits prod.splits option.splits)

lemma hd_firstOccurrences_allEmails:
  "truthy (email p) \<Longrightarrow>
   firstOccurrences (allEmails (p # ss)) \<noteq> [] \<and>
   hd (firstOccurrences (allEmails (p # ss))) = the (email p)"
  by (auto simp: truthy_def allEmails_Cons firstOccurrences_Cons split: option.splits)

lemma hd_firstOccurrences_allPhones:
  "truthy (phoneNumber p) \<Longrightarrow>
   firstOccurrences (allPhones (p # ss)) \<noteq> [] \<and>
   hd (firstOccurrences (allPhones (p # ss))) = the (phoneNumber p)"
  by (auto simp: truthy_def allPhones_Cons firstOccurrences_Cons split: option.splits)

text \<open>
  C7. Every response of \<^verbatim>\<open>identifyContact\<close>, whatever the store does, is built by
  \<^verbatim>\<open>buildResponse\<close> from a primary \<open>p\<close> and a list \<open>ss\<close> of secondaries, whose ids in
  this order are \<^verbatim>\<open>secondaryContactIds\<close>: \<^verbatim>\<open>emails\<close> is the list of the truthy emails of
  \<open>p\<close>, then of \<open>ss\<close> in their order, each value kept at its first occurrence only, and
  \<^verbatim>\<open>phoneNumbers\<close> likewise. So the primary's value is first when it has one, and neither
  list has a duplicate or an empty value (a null cannot be in a list of strings). On a
  store that satisfies the invariant and does not fail, \<open>p\<close> is a primary of the final
  table and \<open>ss\<close> holds, each once, the rows of the final table linked to \<open>p\<close> and not
  soft-deleted.
\<close>

theorem C7_emails_and_phones_ordered:
  assumes "identifyContact fl clk pos em ph s = (Inr r, s')"
  shows "distinct (emails r) \<and> distinct (phoneNumbers r) \<and>
         [] \<notin> set (emails r) \<and> [] \<notin> set (phoneNumbers r) \<and>
         (\<exists>p ss. r = buildResponse p ss \<and> secondaryContactIds r = map id_c ss \<and>
            emails r = firstOccurrences (allEmails (p # ss)) \<and>
            phoneNumbers r = firstOccurrences (allPhones (p # ss)) \<and>
            (truthy (email p) \<longrightarrow> emails r \<noteq> [] \<and> hd (emails r) = the (email p)) \<and>
            (truthy (phoneNumber p) \<longrightarrow>
               phoneNumbers r \<noteq> [] \<and> hd (phoneNumbers r) = the (phoneNumber p)) \<and>
            (wellFormed s \<and> (\<forall>k. \<not> fl k) \<longrightarrow>
               p \<in> set (rows s') \<and> linkPrecedence p = Primary \<and>
               mset ss = mset (linkedTo (id_c p) (rows s'))))"
proof -
  have "\<exists>p ss. r = buildResponse p ss \<and>
          (wellFormed s \<and> (\<forall>k. \<not> fl k) \<longrightarrow>
             p \<in> set (rows s') \<and> linkPrecedence p = Primary \<and>
             mset ss = mset (linkedTo (id_c p) (rows s')))"
  proof (cases "wellFormed s \<and> (\<forall>k. \<not> fl k)")
    case True
    then have "fl = noFault" by auto
    with assms have "identifyContact noFault clk pos em ph s = (Inr r, s')" by simp
    from response_from_final_store[OF _ this] True show ?thesis by blast
  next
    case False
    with result_is_buildResponse[OF assms] show ?thesis by blast
  qed
  then obtain p ss where r: "r = buildResponse p ss"
    and fin: "wellFormed s \<and> (\<forall>k. \<not> fl k) \<longrightarrow>
             p \<in> set (rows s') \<and> linkPrecedence p = Primary \<and>
             mset ss = mset (linkedTo (id_c p) (rows s'))"
    by blast
  have e: "emails r = firstOccurrences (allEmails (p # ss))"
    and q: "phoneNumbers r = firstOccurrences (allPhones (p # ss))"
    unfolding r by (rule buildResponse_lists)+
  have i: "secondaryContactIds r = map id_c ss" unfolding r by (simp add: buildResponse_def)
  have "distinct (emails r)" "distinct (phoneNumbers r)" unfolding e q by simp_all
  moreover have "[] \<notin> set (emails r)" "[] \<notin> set (phoneNumbers r)"
    unfolding e q using empty_notin_all by simp_all
  moreover have "truthy (email p) \<longrightarrow> emails r \<noteq> [] \<and> hd (emails r) = the (email p)"
    unfolding e using hd_firstOccurrences_allEmails by blast
  moreover have "truthy (phoneNumber p) \<longrightarrow>
               phoneNumbers r \<noteq> [] \<and> hd (phoneNumbers r) = the (phoneNumber p)"
    unfolding q using hd_firstOccurrences_allPhones by blast
  ultimately show ?thesis using r e q i fin by blast
qed

theorem C7_witness:
  "identifyContact noFault clock0 idDescending (Some ''a@x.com'') (Some ''222'') store_ABC =
     (Inr \<lparr>primaryContatctId = 1, emails = [''a@x.com'', ''c@x.com'', ''b@x.com''],
            phoneNumbers = [''111'', ''222''], secondaryContactIds = [3, 2]\<rparr>,
      \<lparr>rows = [mkContact 1 ''a@x.com'' ''111'' None Primary 10 None,
               (mkContact 2 ''b@x.com'' ''222'' (Some 1) Secondary 20 None)\<lparr>updatedAt := 102\<rparr>,
               mkContact 3 ''c@x.com'' ''222'' (Some 1) Secondary 30 None],
       nextId = 4\<rparr>) \<and>
   distinct [''a@x.com'', ''c@x.com'', ''b@x.com''] \<and> distinct [''111'', ''222'']"
proof -
  have run: "identifyContact noFault clock0 idDescending (Some ''a@x.com'') (Some ''222'') store_ABC =
     (Inr \<lparr>primaryContatctId = 1, emails = [''a@x.com'', ''c@x.com'', ''b@x.com''],
            phoneNumbers = [''111'', ''222''], secondaryContactIds = [3, 2]\<rparr>,
      \<lparr>rows = [mkContact 1 ''a@x.com'' ''111'' None Primary 10 None,
               (mkContact 2 ''b@x.com'' ''222'' (Some 1) Secondary 20 None)\<lparr>updatedAt := 102\<rparr>,
               mkContact 3 ''c@x.com'' ''222'' (Some 1) Secondary 30 None],
       nextId = 4\<rparr>)"
    by code_simp
  from C7_emails_and_phones_ordered [OF run]
  have "distinct [''a@x.com'', ''c@x.com'', ''b@x.com''] \<and> distinct [''111'', ''222'']"
    by simp
  with run show ?thesis by blast
qed

section \<open>Failures of the store during a merge\<close>

lemma mergeLoop_success:
  "mergeLoop fl clk k tp ps s = (None, s1) \<Longrightarrow> s1 = onRows (mergeRow clk k (id_c tp) ps) s"
proof (induction ps arbitrary: k s)
  case Nil
  then show ?case by (simp add: onRows_def)
next
  case (Cons p ps)
  from Cons.prems have nf: "\<not> fl k" "\<not> fl (k + 1)"
    by (auto simp: Let_def split: if_splits)
  with Cons.prems have
    "mergeLoop fl clk (k + 2) tp ps
       (onRows (contact_updateMany (id_c p) (id_c tp))
          (onRows (contact_update (id_c p) (id_c tp) (clk k)) s)) = (None, s1)"
    by (simp add: Let_def)
  from Cons.IH[OF this] show ?case by (simp add: onRows_def comp_def)
qed

lemma mergeLoop_error:
  "mergeLoop fl clk k tp ps s = (Some e, s1) \<Longrightarrow> e = StoreError"
  by (induction ps arbitrary: k s) (auto simp: Let_def split: if_splits)

lemma identify_success_noFault:
  assumes "identifyContact fl clk pos em ph s = (Inr r, s')"
  shows "identifyContact noFault clk pos em ph s = (Inr r, s')"
proof (cases "findMany_match pos 0 em ph s = []")
  case True
  with assms show ?thesis
    by (simp add: identifyContact_def Let_def split: if_splits)
next
  case False
  show ?thesis
  proof (cases "findMany_ids pos 1 (collectPrimaryIds (findMany_match pos 0 em ph s) []) s")
    case Nil
    with assms False show ?thesis
      by (simp add: identifyContact_def Let_def split: if_splits)
  next
    case (Cons tp ps)
    obtain e1 s1 where m: "mergeLoop fl clk 2 tp ps s = (e1, s1)" by fastforce
    from assms False Cons m have e1: "e1 = None"
      by (cases e1) (simp_all add: identifyContact_def Let_def split: if_splits)
    with m have s1: "s1 = onRows (mergeRow clk 2 (id_c tp) ps) s"
      using mergeLoop_success by blast
    have m': "mergeLoop fl clk 2 tp ps s = (None, onRows (mergeRow clk 2 (id_c tp) ps) s)"
      using m e1 s1 by simp
    from assms False Cons show ?thesis
      by (auto simp: identifyContact_def m' mergeLoop_noFault Let_def contact_create_def
          split: if_splits)
  qed
qed

lemma identify_error_kind:
  assumes "primaryContacts pos em ph s = tp # ps"
    and "identifyContact fl clk pos em ph s = (Inl e, s')"
  shows "e = StoreError"
proof -
  have m: "findMany_match pos 0 em ph s \<noteq> []" using assms(1) by (rule primaryContacts_Cons_match)
  have p: "findMany_ids pos 1 (collectPrimaryIds (findMany_match pos 0 em ph s) []) s = tp # ps"
    using assms(1) by (simp add: primaryContacts_def)
  obtain e1 s1 where l: "mergeLoop fl clk 2 tp ps s = (e1, s1)" by fastforce
  show ?thesis
  proof (cases e1)
    case None
    with assms(2) m p l show ?thesis
      by (auto simp: identifyContact_def Let_def contact_create_def split: if_splits)
  next
    case (Some x)
    with l have "x = StoreError" using mergeLoop_error by blast
    with assms(2) m p l Some show ?thesis
      by (auto simp: identifyContact_def Let_def split: if_splits)
  qed
qed

lemma identify_early_failure:
  "fl 0 \<or> fl 1 \<Longrightarrow> primaryContacts pos em ph s \<noteq> [] \<Longrightarrow>
   identifyContact fl clk pos em ph s = (Inl StoreError, s)"
  by (auto simp: identifyContact_def Let_def primaryContacts_def)

lemma mergeLoop_None_calls:
  "mergeLoop fl clk k tp ps s = (None, s1) \<Longrightarrow> j < 2 * length ps \<Longrightarrow> \<not> fl (k + j)"
proof (induction ps arbitrary: k s j)
  case Nil
  then show ?case by simp
next
  case (Cons p ps)
  from Cons.prems(1) have nf: "\<not> fl k" "\<not> fl (k + 1)"
    by (auto simp: Let_def split: if_splits)
  with Cons.prems(1) have rest:
    "mergeLoop fl clk (k + 2) tp ps
       (onRows (contact_updateMany (id_c p) (id_c tp))
          (onRows (contact_update (id_c p) (id_c tp) (clk k)) s)) = (None, s1)"
    by (simp add: Let_def)
  show ?case
  proof (cases "j < 2")
    case True
    then have "j = 0 \<or> j = 1" by auto
    with nf show ?thesis by auto
  next
    case False
    then obtain i where i: "j = i + 2" by (metis add.commute le_Suc_ex not_less)
    with Cons.prems(2) have "i < 2 * length ps" by simp
    from Cons.IH[OF rest this] i show ?thesis by (simp add: add.assoc add.commute)
  qed
qed

lemma identify_response_calls:
  assumes "primaryContacts pos em ph s = tp # ps"
    and "identifyContact fl clk pos em ph s = (Inr r, s')"
    and "j \<le> 2 + 2 * length ps"
  shows "\<not> fl j"
proof -
  have m: "findMany_match pos 0 em ph s \<noteq> []" using assms(1) by (rule primaryContacts_Cons_match)
  have p: "findMany_ids pos 1 (collectPrimaryIds (findMany_match pos 0 em ph s) []) s = tp # ps"
    using assms(1) by (simp add: primaryContacts_def)
  obtain e1 s1 where l: "mergeLoop fl clk 2 tp ps s = (e1, s1)" by fastforce
  from assms(2) m p l have f: "\<not> fl 0" "\<not> fl 1" "e1 = None" "\<not> fl (2 + 2 * length ps)"
    by (cases e1; auto simp: identifyContact_def Let_def split: if_splits)+
  show ?thesis
  proof (cases "j < 2")
    case True
    then have "j = 0 \<or> j = 1" by auto
    with f show ?thesis by auto
  next
    case False
    show ?thesis
    proof (cases "j = 2 + 2 * length ps")
      case True
      with f(4) show ?thesis by simp
    next
      case n: False
      with False assms(3) obtain i where i: "j = 2 + i" "i < 2 * length ps"
        by (metis add.commute le_Suc_ex not_less add_less_cancel_left le_neq_implies_less)
      from mergeLoop_None_calls[OF l[unfolded f(3)] i(2)] i(1) show ?thesis by simp
    qed
  qed
qed

text \<open>
  C3. The demotion of a root and the re-point of the rows linked to it are two separate
  calls to the store, not one atomic unit. What holds: on a store that satisfies the
  invariant, with roots \<open>tp # ps\<close>, a request that gets a response has made every write of
  the merge (its outcome is that of a run without failure): every other root is a
  secondary of the true primary, and no row that is not soft-deleted is linked to a
  demoted root. When a call up to the query of step 4 fails, one of the writes of the
  merge included, the request fails with the store's error; when the failing call is one
  of the two reads before the merge, the store is unchanged. In the counterexample the
  re-point of the first iteration (call 3) throws: the request fails, the demotion of
  id 2 stays, and id 3 is still linked to id 2.
\<close>

theorem C3_completed_merge_is_whole:
  assumes "wellFormed s" and "primaryContacts pos em ph s = tp # ps"
    and "identifyContact fl clk pos em ph s = (res, s')"
  shows "(fl 0 \<or> fl 1 \<longrightarrow> res = Inl StoreError \<and> s' = s) \<and>
         ((\<exists>j\<le>2 + 2 * length ps. fl j) \<longrightarrow> res = Inl StoreError) \<and>
         (\<forall>e. res = Inl e \<longrightarrow> e = StoreError) \<and>
         (\<forall>r. res = Inr r \<longrightarrow>
            identifyContact noFault clk pos em ph s = (Inr r, s') \<and>
            (\<forall>q\<in>set ps.
               (\<exists>c\<in>set (rows s'). id_c c = id_c q \<and> linkPrecedence c = Secondary \<and>
                   linkedId c = Some (id_c tp)) \<and>
               (\<forall>c\<in>set (rows s'). deletedAt c = None \<longrightarrow> linkedId c \<noteq> Some (id_c q))))"
proof (intro conjI allI impI)
  note wf = assms(1) and r = assms(2)
  show "res = Inl StoreError" "s' = s" if "fl 0 \<or> fl 1"
    using identify_early_failure[OF that, where em=em and ph=ph and s=s and clk=clk and pos=pos] r assms(3) by simp_all
  show e: "e = StoreError" if "res = Inl e" for e
    using identify_error_kind[OF r] assms(3) that by blast
  show "res = Inl StoreError" if "\<exists>j\<le>2 + 2 * length ps. fl j"
  proof (cases res)
    case (Inl x)
    with e show ?thesis by simp
  next
    case (Inr x)
    with identify_response_calls[OF r] assms(3) that show ?thesis by blast
  qed
  fix rr assume rr: "res = Inr rr"
  with assms(3) show nf: "identifyContact noFault clk pos em ph s = (Inr rr, s')"
    using identify_success_noFault by blast
  then have s': "s' = snd (identifyContact noFault clk pos em ph s)" by simp
  from rows_identify_match[OF r, where clk=clk] obtain new where
    rows': "rows s' = map (mergeRow clk 2 (id_c tp) ps) (rows s) @ new"
    and new: "\<forall>c\<in>set new. linkedId c = Some (id_c tp)" unfolding s' by blast
  show "\<forall>q\<in>set ps.
               (\<exists>c\<in>set (rows s'). id_c c = id_c q \<and> linkPrecedence c = Secondary \<and>
                   linkedId c = Some (id_c tp)) \<and>
               (\<forall>c\<in>set (rows s'). deletedAt c = None \<longrightarrow> linkedId c \<noteq> Some (id_c q))"
  proof (intro ballI conjI impI)
    fix q assume q: "q \<in> set ps"
    let ?c = "mergeRow clk 2 (id_c tp) ps q"
    have "q \<in> set (rows s)" using roots_Cons(6)[OF wf r] q by blast
    then have "?c \<in> set (rows s')" unfolding rows' by simp
    moreover have "id_c ?c = id_c q" by simp
    moreover have "linkPrecedence ?c = Secondary" using q by (simp add: mergeRow_linkPrecedence)
    moreover have "linkedId ?c = Some (id_c tp)" using q by (simp add: mergeRow_linkedId)
    ultimately show "\<exists>c\<in>set (rows s'). id_c c = id_c q \<and> linkPrecedence c = Secondary \<and>
                   linkedId c = Some (id_c tp)" by blast
    have ne: "id_c tp \<noteq> id_c q" using roots_Cons(5)[OF wf r] q by auto
    fix c assume c: "c \<in> set (rows s')" and d: "deletedAt c = None"
    show "linkedId c \<noteq> Some (id_c q)"
    proof (cases "c \<in> set new")
      case True
      with new ne show ?thesis by auto
    next
      case False
      with c rows' obtain c0 where c0: "c = mergeRow clk 2 (id_c tp) ps c0" by auto
      with d have "deletedAt c0 = None" by simp
      with q ne show ?thesis unfolding c0 by (auto simp: mergeRow_linkedId)
    qed
  qed
qed

theorem C3_witness:
  "wellFormed store_ABC \<and>
   primaryContacts tableOrder (Some ''a@x.com'') (Some ''222'') store_ABC =
      [mkContact 1 ''a@x.com'' ''111'' None Primary 10 None,
       mkContact 2 ''b@x.com'' ''222'' None Primary 20 None] \<and>
   identifyContact noFault clock0 tableOrder (Some ''a@x.com'') (Some ''222'') store_ABC =
     (Inr \<lparr>primaryContatctId = 1, emails = [''a@x.com'', ''b@x.com'', ''c@x.com''],
            phoneNumbers = [''111'', ''222''], secondaryContactIds = [2, 3]\<rparr>,
      \<lparr>rows = [mkContact 1 ''a@x.com'' ''111'' None Primary 10 None,
               (mkContact 2 ''b@x.com'' ''222'' (Some 1) Secondary 20 None)\<lparr>updatedAt := 102\<rparr>,
               mkContact 3 ''c@x.com'' ''222'' (Some 1) Secondary 30 None],
       nextId = 4\<rparr>) \<and>
   (\<exists>c\<in>set (rows (snd (identifyContact noFault clock0 tableOrder (Some ''a@x.com'') (Some ''222'')
                          store_ABC))).
       id_c c = 2 \<and> linkPrecedence c = Secondary \<and> linkedId c = Some 1)"
proof -
  let ?A = "mkContact 1 ''a@x.com'' ''111'' None Primary 10 None"
  let ?B = "mkContact 2 ''b@x.com'' ''222'' None Primary 20 None"
  have wf: "wellFormed store_ABC" by code_simp
  have roots: "primaryContacts tableOrder (Some ''a@x.com'') (Some ''222'') store_ABC = [?A, ?B]"
    by code_simp
  have run: "identifyContact noFault clock0 tableOrder (Some ''a@x.com'') (Some ''222'') store_ABC =
     (Inr \<lparr>primaryContatctId = 1, emails = [''a@x.com'', ''b@x.com'', ''c@x.com''],
            phoneNumbers = [''111'', ''222''], secondaryContactIds = [2, 3]\<rparr>,
      \<lparr>rows = [mkContact 1 ''a@x.com'' ''111'' None Primary 10 None,
               (mkContact 2 ''b@x.com'' ''222'' (Some 1) Secondary 20 None)\<lparr>updatedAt := 102\<rparr>,
               mkContact 3 ''c@x.com'' ''222'' (Some 1) Secondary 30 None],
       nextId = 4\<rparr>)"
    by code_simp
  from C3_completed_merge_is_whole [OF wf roots run]
  have "\<exists>c\<in>set (rows (snd (identifyContact noFault clock0 tableOrder (Some ''a@x.com'') (Some ''222'')
                          store_ABC))).
       id_c c = id_c ?B \<and> linkPrecedence c = Secondary \<and> linkedId c = Some (id_c ?A)"
    unfolding run by simp
  then show ?thesis using wf roots run by (simp add: mkContact_def)
qed

theorem C3_counterexample:
  "identifyContact (\<lambda>k. k = 3) clock0 tableOrder (Some ''a@x.com'') (Some ''222'') store_ABC =
     (Inl StoreError,
      \<lparr>rows = [mkContact 1 ''a@x.com'' ''111'' None Primary 10 None,
               (mkContact 2 ''b@x.com'' ''222'' (Some 1) Secondary 20 None)\<lparr>updatedAt := 102\<rparr>,
               mkContact 3 ''c@x.com'' ''222'' (Some 2) Secondary 30 None],
       nextId = 4\<rparr>) \<and>
   snd (identifyContact (\<lambda>k. k = 3) clock0 tableOrder (Some ''a@x.com'') (Some ''222'') store_ABC)
     \<noteq> store_ABC"
  by code_simp

section \<open>Repeating a request\<close>


lemma mergeRow_Nil_map [simp]: "map (mergeRow clk k tid []) xs = xs"
  by (induction xs) simp_all

lemma onRows_mergeRow_Nil [simp]: "onRows (mergeRow clk k tid []) s = s"
  by (simp add: onRows_def)




lemma returned_single [simp]: "returned pos k [c] = [c]"
  by (simp add: returned_def)







end
